theory Spec2Isabelle
  imports Main "HOL-Library.Multiset" "HOL-Library.FSet"
begin

section \<open>Partition-sort engine (task1.py)\<close>

subsection \<open>Python lists in a store\<close>

text \<open>
  The sort routines mutate a list object in place and the public entry points copy their
  argument first. A list object is a cell of a store; a reference is the index of its
  cell. \<open>arr.copy()\<close> appends a new cell. Elements are Python integers (unbounded).
\<close>

datatype py_error = IndexError | ValueError | AttributeError | DanglingRef | RecursionError

type_synonym ref = nat
type_synonym store = "int list list"

text \<open>
  \<open>py_index xs i\<close> resolves a Python subscript: a negative index counts from the end, and
  an index outside \<open>[-len, len)\<close> raises IndexError.
\<close>

definition py_index :: "int list \<Rightarrow> int \<Rightarrow> py_error + nat" where
  "py_index xs i =
     (if i < 0 then
        (if - i \<le> int (length xs) then Inr (nat (int (length xs) + i)) else Inl IndexError)
      else if i < int (length xs) then Inr (nat i)
      else Inl IndexError)"

text \<open>\<open>arr[i]\<close> as an expression.\<close>

definition list_getitem :: "store \<Rightarrow> ref \<Rightarrow> int \<Rightarrow> py_error + int" where
  "list_getitem st arr i =
     (if arr < length st then
        (case py_index (st ! arr) i of
           Inl e \<Rightarrow> Inl e
         | Inr n \<Rightarrow> Inr (st ! arr ! n))
      else Inl DanglingRef)"

text \<open>\<open>arr[i] = v\<close> as a statement.\<close>

definition list_setitem :: "store \<Rightarrow> ref \<Rightarrow> int \<Rightarrow> int \<Rightarrow> py_error + store" where
  "list_setitem st arr i v =
     (if arr < length st then
        (case py_index (st ! arr) i of
           Inl e \<Rightarrow> Inl e
         | Inr n \<Rightarrow> Inr (st[arr := (st ! arr)[n := v]]))
      else Inl DanglingRef)"

text \<open>\<open>len(arr)\<close> and \<open>arr.copy()\<close>.\<close>

definition list_len :: "store \<Rightarrow> ref \<Rightarrow> py_error + int" where
  "list_len st arr = (if arr < length st then Inr (int (length (st ! arr))) else Inl DanglingRef)"

definition list_copy :: "store \<Rightarrow> ref \<Rightarrow> py_error + (store \<times> ref)" where
  "list_copy st arr =
     (if arr < length st then Inr (st @ [st ! arr], length st) else Inl DanglingRef)"

text \<open>
  The tuple assignment \<open>arr[p], arr[q] = arr[q], arr[p]\<close>: the right-hand side is read
  left to right (\<open>arr[q]\<close>, then \<open>arr[p]\<close>), then the targets are stored left to right.
\<close>

definition swap_items :: "store \<Rightarrow> ref \<Rightarrow> int \<Rightarrow> int \<Rightarrow> py_error + store" where
  "swap_items st arr p q =
     (case list_getitem st arr q of
        Inl e \<Rightarrow> Inl e
      | Inr x \<Rightarrow>
          (case list_getitem st arr p of
             Inl e \<Rightarrow> Inl e
           | Inr y \<Rightarrow>
               (case list_setitem st arr p x of
                  Inl e \<Rightarrow> Inl e
                | Inr st1 \<Rightarrow> list_setitem st1 arr q y)))"

subsection \<open>deterministic\_partition\<close>

text \<open>
  The scan \<open>for j in range(low, high)\<close> of \<open>deterministic_partition\<close>, with the boundary
  index \<open>i\<close> carried along. It returns the store and the final \<open>i\<close>.
\<close>

function partition_loop ::
  "store \<Rightarrow> ref \<Rightarrow> int \<Rightarrow> int \<Rightarrow> int \<Rightarrow> int \<Rightarrow> py_error + (store \<times> int)" where
  "partition_loop st arr pivot i j high =
     (if j < high then
        (case list_getitem st arr j of
           Inl e \<Rightarrow> Inl e
         | Inr x \<Rightarrow>
             if x \<le> pivot then
               (case swap_items st arr (i + 1) j of
                  Inl e \<Rightarrow> Inl e
                | Inr st1 \<Rightarrow> partition_loop st1 arr pivot (i + 1) (j + 1) high)
             else partition_loop st arr pivot i (j + 1) high)
      else Inr (st, i))"
  by pat_completeness auto
termination
  by (relation "measure (\<lambda>(st, arr, pivot, i, j, high). nat (high - j))") auto

declare partition_loop.simps [simp del]

definition deterministic_partition ::
  "store \<Rightarrow> ref \<Rightarrow> int \<Rightarrow> int \<Rightarrow> py_error + (store \<times> int)" where
  "deterministic_partition st arr low high =
     (case list_getitem st arr high of
        Inl e \<Rightarrow> Inl e
      | Inr pivot \<Rightarrow>
          (case partition_loop st arr pivot (low - 1) low high of
             Inl e \<Rightarrow> Inl e
           | Inr (st1, i) \<Rightarrow>
               (case swap_items st1 arr (i + 1) high of
                  Inl e \<Rightarrow> Inl e
                | Inr st2 \<Rightarrow> Inr (st2, i + 1))))"

subsection \<open>The call stack\<close>

text \<open>
  The interpreter bounds the depth of nested calls of Python functions
  (\<open>sys.getrecursionlimit()\<close>, 1000 unless changed; the program never changes it): a call
  made when no frame is left raises RecursionError. Every function of the program that is
  called takes the number \<open>frames\<close> of frames that may still be pushed when it is called;
  its own frame is one of them, and its callees get the rest. Subscripts, \<open>len\<close>,
  \<open>range\<close> and \<open>list.copy\<close> are built in and push no Python frame (the limit counts
  Python frames only, as CPython does from version 3.12 on).

  \<open>py_call frames result\<close> calls a function that calls no Python function itself, such as
  \<open>deterministic_partition\<close>: it raises when no frame is left and runs the body otherwise.
\<close>

definition py_call :: "nat \<Rightarrow> py_error + 'a \<Rightarrow> py_error + 'a" where
  "py_call frames result = (if frames = 0 then Inl RecursionError else result)"

subsection \<open>randomized\_partition\<close>

text \<open>
  \<open>random.randint(a, b)\<close> reads and advances the process-wide generator of the
  \<open>random\<close> module. The generator is a parameter: a state \<open>'g\<close> and a function \<open>rng\<close>
  giving the number drawn and the next state. On a non-empty range the contract of
  \<open>random.randint\<close> is \<open>a \<le> N \<le> b\<close>, which is \<open>rng_in_range\<close>; on an empty one it raises
  ValueError. \<open>random.randint\<close> is itself written in Python and nests frames of its own
  (\<open>randint\<close>, \<open>randrange\<close>, \<open>_randbelow\<close> in CPython's \<open>random.py\<close>): their number is the
  parameter \<open>rd\<close>, and the call raises RecursionError when fewer frames are left.
\<close>

definition randint ::
  "('g \<Rightarrow> int \<Rightarrow> int \<Rightarrow> int \<times> 'g) \<Rightarrow> nat \<Rightarrow> 'g \<Rightarrow> nat \<Rightarrow> int \<Rightarrow> int
     \<Rightarrow> py_error + (int \<times> 'g)" where
  "randint rng rd g frames a b =
     (if frames < rd then Inl RecursionError
      else if a \<le> b then Inr (rng g a b)
      else Inl ValueError)"

definition rng_in_range :: "('g \<Rightarrow> int \<Rightarrow> int \<Rightarrow> int \<times> 'g) \<Rightarrow> bool" where
  "rng_in_range rng \<longleftrightarrow> (\<forall>g a b. a \<le> b \<longrightarrow> a \<le> fst (rng g a b) \<and> fst (rng g a b) \<le> b)"

definition randomized_partition ::
  "('g \<Rightarrow> int \<Rightarrow> int \<Rightarrow> int \<times> 'g) \<Rightarrow> nat \<Rightarrow> 'g \<Rightarrow> nat \<Rightarrow> store \<Rightarrow> ref \<Rightarrow> int \<Rightarrow> int
     \<Rightarrow> py_error + (store \<times> int \<times> 'g)" where
  "randomized_partition rng rd g frames st arr low high =
     (case frames of
        0 \<Rightarrow> Inl RecursionError
      | Suc rest \<Rightarrow>
          (case randint rng rd g rest low high of
             Inl e \<Rightarrow> Inl e
           | Inr (random_index, g1) \<Rightarrow>
               (case swap_items st arr random_index high of
                  Inl e \<Rightarrow> Inl e
                | Inr st1 \<Rightarrow>
                    (case py_call rest (deterministic_partition st1 arr low high) of
                       Inl e \<Rightarrow> Inl e
                     | Inr (st2, p) \<Rightarrow> Inr (st2, p, g1)))))"

subsection \<open>Bounds of the returned index\<close>

text \<open>
  The recursion of the helpers is on \<open>[low, pi - 1]\<close> and \<open>[pi + 1, high]\<close>; that it ends
  rests on \<open>low \<le> pi \<le> high\<close>, which holds whenever the partition returns at all.
\<close>

lemma partition_loop_bounds:
  "partition_loop st arr pivot i j high = Inr (st', i') \<Longrightarrow> i < j \<Longrightarrow> j \<le> high \<Longrightarrow>
   i \<le> i' \<and> i' < high"
proof (induction st arr pivot i j high rule: partition_loop.induct)
  case (1 st arr pivot i j high)
  show ?case
  proof (cases "j < high")
    case False
    with "1.prems" show ?thesis by (simp add: partition_loop.simps[of st arr pivot i j high])
  next
    case True
    note unf = partition_loop.simps[of st arr pivot i j high]
    from "1.prems"(1) True obtain x where x: "list_getitem st arr j = Inr x"
      by (simp add: unf split: sum.splits)
    show ?thesis
    proof (cases "x \<le> pivot")
      case le: True
      from "1.prems"(1) True x le obtain st1 where
        st1: "swap_items st arr (i + 1) j = Inr st1"
        and rec: "partition_loop st1 arr pivot (i + 1) (j + 1) high = Inr (st', i')"
        by (simp add: unf split: sum.splits)
      from "1.IH"(1)[OF True x le st1 rec] "1.prems" True show ?thesis by simp
    next
      case gt: False
      from "1.prems"(1) True x gt
      have rec: "partition_loop st arr pivot i (j + 1) high = Inr (st', i')"
        by (simp add: unf)
      from "1.IH"(2)[OF True x gt rec] "1.prems" True show ?thesis by simp
    qed
  qed
qed

lemma deterministic_partition_bounds:
  assumes "deterministic_partition st arr low high = Inr (st', p)" and "low \<le> high"
  shows "low \<le> p \<and> p \<le> high"
proof -
  from assms(1) obtain pivot st1 i where
    loop: "partition_loop st arr pivot (low - 1) low high = Inr (st1, i)" and p: "p = i + 1"
    by (auto simp: deterministic_partition_def split: sum.splits)
  from partition_loop_bounds[OF loop] assms(2) p show ?thesis by simp
qed

lemma py_call_Inr: "py_call frames result = Inr x \<Longrightarrow> result = Inr x"
  by (simp add: py_call_def split: if_splits)

lemma randomized_partition_bounds:
  assumes "randomized_partition rng rd g frames st arr low high = Inr (st', p, g')"
  shows "low \<le> p \<and> p \<le> high"
proof -
  from assms obtain rest where fr: "frames = Suc rest" by (cases frames) (simp_all add: randomized_partition_def)
  from assms[unfolded fr] obtain st1 where
    le: "low \<le> high"
    and part: "py_call rest (deterministic_partition st1 arr low high) = Inr (st', p)"
    by (auto simp: randomized_partition_def randint_def split: sum.splits if_splits prod.splits)
  from deterministic_partition_bounds[OF py_call_Inr[OF part] le] show ?thesis .
qed

subsection \<open>The recursive helpers and the entry points\<close>

text \<open>
  The helpers are defined by recursion on the index range, as the program is written; the
  frames only decide whether a call is made. A call with no frame left raises at once.
\<close>

function deterministic_quick_sort_helper ::
  "nat \<Rightarrow> store \<Rightarrow> ref \<Rightarrow> int \<Rightarrow> int \<Rightarrow> py_error + store" where
  "deterministic_quick_sort_helper frames st arr low high =
     (case frames of
        0 \<Rightarrow> Inl RecursionError
      | Suc rest \<Rightarrow>
          if low < high then
            (case py_call rest (deterministic_partition st arr low high) of
               Inl e \<Rightarrow> Inl e
             | Inr (st1, pi) \<Rightarrow>
                 (case deterministic_quick_sort_helper rest st1 arr low (pi - 1) of
                    Inl e \<Rightarrow> Inl e
                  | Inr st2 \<Rightarrow> deterministic_quick_sort_helper rest st2 arr (pi + 1) high))
          else Inr st)"
  by pat_completeness auto
termination
proof (relation "measure (\<lambda>(frames, st, arr, low, high). nat (high - low))", goal_cases)
  case 1
  show ?case by simp
next
  case (2 frames st arr low high rest x2 st1 p)
  then have "deterministic_partition st arr low high = Inr (st1, p)"
    using py_call_Inr[of rest "deterministic_partition st arr low high" "(st1, p)"] by simp
  then have "low \<le> p \<and> p \<le> high"
    using 2 deterministic_partition_bounds[of st arr low high st1 p] by simp
  with 2 show ?case by simp
next
  case (3 frames st arr low high rest x2 st1 p st2)
  then have "deterministic_partition st arr low high = Inr (st1, p)"
    using py_call_Inr[of rest "deterministic_partition st arr low high" "(st1, p)"] by simp
  then have "low \<le> p \<and> p \<le> high"
    using 3 deterministic_partition_bounds[of st arr low high st1 p] by simp
  with 3 show ?case by simp
qed

declare deterministic_quick_sort_helper.simps [simp del]

function randomized_quick_sort_helper ::
  "('g \<Rightarrow> int \<Rightarrow> int \<Rightarrow> int \<times> 'g) \<Rightarrow> nat \<Rightarrow> 'g \<Rightarrow> nat \<Rightarrow> store \<Rightarrow> ref \<Rightarrow> int \<Rightarrow> int
     \<Rightarrow> py_error + (store \<times> 'g)" where
  "randomized_quick_sort_helper rng rd g frames st arr low high =
     (case frames of
        0 \<Rightarrow> Inl RecursionError
      | Suc rest \<Rightarrow>
          if low < high then
            (case randomized_partition rng rd g rest st arr low high of
               Inl e \<Rightarrow> Inl e
             | Inr (st1, pi, g1) \<Rightarrow>
                 (case randomized_quick_sort_helper rng rd g1 rest st1 arr low (pi - 1) of
                    Inl e \<Rightarrow> Inl e
                  | Inr (st2, g2) \<Rightarrow>
                      randomized_quick_sort_helper rng rd g2 rest st2 arr (pi + 1) high))
          else Inr (st, g))"
  by pat_completeness auto
termination
proof (relation "measure (\<lambda>(rng, rd, g, frames, st, arr, low, high). nat (high - low))",
    goal_cases)
  case 1
  show ?case by simp
next
  case (2 rng rd g frames st arr low high rest x2 st1 y p g1)
  then have "low \<le> p \<and> p \<le> high"
    using randomized_partition_bounds[of rng rd g rest st arr low high st1 p g1] by simp
  with 2 show ?case by simp
next
  case (3 rng rd g frames st arr low high rest x2 st1 y p g1 x2a st2 g2)
  then have "low \<le> p \<and> p \<le> high"
    using randomized_partition_bounds[of rng rd g rest st arr low high st1 p g1] by simp
  with 3 show ?case by simp
qed

declare randomized_quick_sort_helper.simps [simp del]

definition deterministic_quick_sort ::
  "nat \<Rightarrow> store \<Rightarrow> ref \<Rightarrow> py_error + (store \<times> ref)" where
  "deterministic_quick_sort frames st arr =
     (case frames of
        0 \<Rightarrow> Inl RecursionError
      | Suc rest \<Rightarrow>
          (case list_copy st arr of
             Inl e \<Rightarrow> Inl e
           | Inr (st1, arr_copy) \<Rightarrow>
               (case list_len st1 arr_copy of
                  Inl e \<Rightarrow> Inl e
                | Inr n \<Rightarrow>
                    (case deterministic_quick_sort_helper rest st1 arr_copy 0 (n - 1) of
                       Inl e \<Rightarrow> Inl e
                     | Inr st2 \<Rightarrow> Inr (st2, arr_copy)))))"

definition randomized_quick_sort ::
  "('g \<Rightarrow> int \<Rightarrow> int \<Rightarrow> int \<times> 'g) \<Rightarrow> nat \<Rightarrow> 'g \<Rightarrow> nat \<Rightarrow> store \<Rightarrow> ref
     \<Rightarrow> py_error + (store \<times> ref \<times> 'g)" where
  "randomized_quick_sort rng rd g frames st arr =
     (case frames of
        0 \<Rightarrow> Inl RecursionError
      | Suc rest \<Rightarrow>
          (case list_copy st arr of
             Inl e \<Rightarrow> Inl e
           | Inr (st1, arr_copy) \<Rightarrow>
               (case list_len st1 arr_copy of
                  Inl e \<Rightarrow> Inl e
                | Inr n \<Rightarrow>
                    (case randomized_quick_sort_helper rng rd g rest st1 arr_copy 0 (n - 1) of
                       Inl e \<Rightarrow> Inl e
                     | Inr (st2, g1) \<Rightarrow> Inr (st2, arr_copy, g1)))))"

subsection \<open>Specification predicates for the sort\<close>

definition same_outside :: "int list \<Rightarrow> int list \<Rightarrow> int \<Rightarrow> int \<Rightarrow> bool" where
  "same_outside xs ys low high \<longleftrightarrow>
     length ys = length xs \<and> mset ys = mset xs \<and>
     (\<forall>k. 0 \<le> k \<and> (k < low \<or> high < k) \<longrightarrow> ys ! nat k = xs ! nat k)"

definition partitioned_at :: "int list \<Rightarrow> int \<Rightarrow> int \<Rightarrow> int \<Rightarrow> bool" where
  "partitioned_at ys low p high \<longleftrightarrow>
     (\<forall>k. low \<le> k \<and> k < p \<longrightarrow> ys ! nat k \<le> ys ! nat p) \<and>
     (\<forall>k. p < k \<and> k \<le> high \<longrightarrow> ys ! nat p < ys ! nat k)"

definition sorted_between :: "int list \<Rightarrow> int \<Rightarrow> int \<Rightarrow> bool" where
  "sorted_between ys low high \<longleftrightarrow>
     (\<forall>k l. low \<le> k \<and> k \<le> l \<and> l \<le> high \<longrightarrow> ys ! nat k \<le> ys ! nat l)"

definition subrange :: "int list \<Rightarrow> int \<Rightarrow> int \<Rightarrow> int list" where
  "subrange xs low high = take (nat (high - low + 1)) (drop (nat low) xs)"

text \<open>
  A concrete generator for evaluating the randomized routines: the state is a counter, a
  draw from \<open>[a, b]\<close> is \<open>a + (g mod (b - a + 1))\<close> and advances the counter.
\<close>

definition counter_rng :: "nat \<Rightarrow> int \<Rightarrow> int \<Rightarrow> int \<times> nat" where
  "counter_rng g a b = (a + int g mod (b - a + 1), Suc g)"

section \<open>Greedy set-cover scheduler (task2.py)\<close>

text \<open>
  A \<open>Teacher\<close> object has five fields fixed at construction and the mutable field
  \<open>assigned_subjects\<close>. Teachers are compared by identity (the class defines no \<open>__eq__\<close>),
  so a teacher is a reference into a heap of teacher objects and the pool is a list of
  references, which may name one object more than once. Python sets are finite sets.
\<close>

type_synonym subject = string

record teacher =
  first_name :: string
  last_name :: string
  age :: int
  email :: string
  can_teach_subjects :: "subject fset"
  assigned_subjects :: "subject fset"

type_synonym tref = nat
type_synonym theap = "tref \<Rightarrow> teacher"

text \<open>The loop \<open>for teacher in available_teachers: teacher.assigned_subjects = set()\<close>.\<close>

fun reset_assigned :: "theap \<Rightarrow> tref list \<Rightarrow> theap" where
  "reset_assigned h [] = h"
| "reset_assigned h (t # ts) = reset_assigned (h(t := (h t)\<lparr>assigned_subjects := {||}\<rparr>)) ts"

text \<open>
  The inner loop \<open>for teacher in available_teachers\<close> of one round, carrying
  \<open>best_teacher\<close> and \<open>max_coverage\<close>. Reading \<open>best_teacher.age\<close> while \<open>best_teacher\<close> is
  \<open>None\<close> raises AttributeError.
\<close>

fun find_best_teacher ::
  "theap \<Rightarrow> subject fset \<Rightarrow> tref list \<Rightarrow> tref option \<Rightarrow> nat
     \<Rightarrow> py_error + (tref option \<times> nat)" where
  "find_best_teacher h uncovered [] best_teacher max_coverage = Inr (best_teacher, max_coverage)"
| "find_best_teacher h uncovered (t # ts) best_teacher max_coverage =
     (let coverage = fcard (can_teach_subjects (h t) |\<inter>| uncovered) in
      if coverage > max_coverage then find_best_teacher h uncovered ts (Some t) coverage
      else if coverage = max_coverage \<and> coverage > 0 then
        (case best_teacher of
           None \<Rightarrow> Inl AttributeError
         | Some b \<Rightarrow>
             if age (h t) < age (h b) then find_best_teacher h uncovered ts (Some t) max_coverage
             else find_best_teacher h uncovered ts best_teacher max_coverage)
      else find_best_teacher h uncovered ts best_teacher max_coverage)"

text \<open>\<open>xs.remove(x)\<close>: removes the first occurrence, raises ValueError when there is none.\<close>

definition list_remove :: "tref list \<Rightarrow> tref \<Rightarrow> py_error + tref list" where
  "list_remove xs x = (if x \<in> set xs then Inr (remove1 x xs) else Inl ValueError)"

text \<open>
  The loop \<open>while uncovered_subjects\<close>. It returns the heap and the value returned by
  \<open>create_schedule\<close>: \<open>None\<close>, or the list of selected teachers. The counter \<open>step\<close> and the
  console output are left out.
\<close>

function schedule_loop ::
  "theap \<Rightarrow> subject fset \<Rightarrow> tref list \<Rightarrow> tref list
     \<Rightarrow> py_error + (theap \<times> tref list option)" where
  "schedule_loop h uncovered available selected =
     (if uncovered \<noteq> {||} then
        (case find_best_teacher h uncovered available None 0 of
           Inl e \<Rightarrow> Inl e
         | Inr (best_teacher, max_coverage) \<Rightarrow>
             (case best_teacher of
                None \<Rightarrow> Inr (h, None)
              | Some b \<Rightarrow>
                  if max_coverage = 0 then Inr (h, None)
                  else
                    (let subjects_to_assign = can_teach_subjects (h b) |\<inter>| uncovered;
                         h1 = h(b := (h b)\<lparr>assigned_subjects := subjects_to_assign\<rparr>)
                     in case list_remove available b of
                          Inl e \<Rightarrow> Inl e
                        | Inr available1 \<Rightarrow>
                            schedule_loop h1 (uncovered |-| subjects_to_assign) available1
                              (selected @ [b]))))
      else Inr (h, Some selected))"
  by pat_completeness auto
termination
proof (relation "measure (\<lambda>(h, uncovered, available, selected). length available)", goal_cases)
  case 1
  show ?case by simp
next
  case (2 h uncovered available selected x2 best mx b sub h1 available1)
  then have "b \<in> set available" and "available1 = remove1 b available"
    by (auto simp: list_remove_def split: if_splits)
  then have "length available1 = length available - 1" and "0 < length available"
    by (auto simp: length_remove1)
  then show ?case by simp
qed

declare schedule_loop.simps [simp del]

definition create_schedule ::
  "theap \<Rightarrow> subject fset \<Rightarrow> tref list \<Rightarrow> py_error + (theap \<times> tref list option)" where
  "create_schedule h subjects teachers =
     schedule_loop (reset_assigned h teachers) subjects teachers []"

text \<open>
  \<open>print_detailed_schedule\<close> starts with \<open>if not schedule\<close>: \<open>None\<close> and the empty list are
  both falsy. The model returns which of the two reports is printed.
\<close>

datatype report = ScheduleMissing | ScheduleDetails "tref list"

fun print_detailed_schedule :: "tref list option \<Rightarrow> report" where
  "print_detailed_schedule None = ScheduleMissing"
| "print_detailed_schedule (Some []) = ScheduleMissing"
| "print_detailed_schedule (Some (t # ts)) = ScheduleDetails (t # ts)"

subsection \<open>Specification functions for the scheduler\<close>

text \<open>The number of still uncovered subjects a teacher can teach.\<close>

definition coverage :: "theap \<Rightarrow> subject fset \<Rightarrow> tref \<Rightarrow> nat" where
  "coverage h uncovered t = fcard (can_teach_subjects (h t) |\<inter>| uncovered)"

text \<open>The subjects assigned to the teachers of a list, taken together.\<close>

fun covered_by :: "theap \<Rightarrow> tref list \<Rightarrow> subject fset" where
  "covered_by h [] = {||}"
| "covered_by h (t # ts) = assigned_subjects (h t) |\<union>| covered_by h ts"

text \<open>
  \<open>is_best h uncovered xs best mx\<close>: \<open>mx\<close> bounds the coverage of every teacher of \<open>xs\<close>;
  with no best teacher \<open>mx\<close> is \<open>0\<close>; a best teacher has coverage \<open>mx > 0\<close>, is the
  youngest of the teachers of \<open>xs\<close> with that coverage, and stands in \<open>xs\<close> before every
  other teacher with that coverage and age.
\<close>

definition is_best :: "theap \<Rightarrow> subject fset \<Rightarrow> tref list \<Rightarrow> tref option \<Rightarrow> nat \<Rightarrow> bool" where
  "is_best h uncovered xs best mx \<longleftrightarrow>
     (\<forall>t \<in> set xs. coverage h uncovered t \<le> mx) \<and>
     (case best of
        None \<Rightarrow> mx = 0
      | Some b \<Rightarrow>
          0 < mx \<and> coverage h uncovered b = mx \<and>
          (\<forall>t \<in> set xs. coverage h uncovered t = mx \<longrightarrow> age (h b) \<le> age (h t)) \<and>
          (\<exists>i < length xs. xs ! i = b \<and>
             (\<forall>j < i. coverage h uncovered (xs ! j) = mx \<longrightarrow> age (h b) < age (h (xs ! j)))))"

text \<open>
  The invariant of the loop \<open>while uncovered_subjects\<close>, for the universe \<open>subjects\<close>: no
  teacher is selected twice, the uncovered subjects are the universe without everything
  assigned so far, no selected teacher can teach an uncovered subject, and the assignment
  set of the \<open>k\<close>-th selected teacher is its capability set cut down to what the first
  \<open>k\<close> selections left uncovered.
\<close>

definition schedule_inv :: "subject fset \<Rightarrow> theap \<Rightarrow> subject fset \<Rightarrow> tref list \<Rightarrow> bool" where
  "schedule_inv subjects h uncovered selected \<longleftrightarrow>
     distinct selected \<and>
     uncovered = subjects |-| covered_by h selected \<and>
     (\<forall>t \<in> set selected. can_teach_subjects (h t) |\<inter>| uncovered = {||}) \<and>
     (\<forall>k < length selected.
        assigned_subjects (h (selected ! k)) =
          can_teach_subjects (h (selected ! k)) |\<inter>|
            (subjects |-| covered_by h (take k selected)))"

subsection \<open>Example pools\<close>

text \<open>\<open>Teacher(first_name, last_name, age, email, can_teach_subjects)\<close>.\<close>

definition new_teacher :: "string \<Rightarrow> string \<Rightarrow> int \<Rightarrow> string \<Rightarrow> subject fset \<Rightarrow> teacher" where
  "new_teacher fn ln a em subs =
     \<lparr>first_name = fn, last_name = ln, age = a, email = em,
      can_teach_subjects = subs, assigned_subjects = {||}\<rparr>"

text \<open>
  Two teachers with overlapping capabilities: reference 0 teaches A and B at age 30,
  reference 1 teaches B and C at age 25.
\<close>

definition overlap_heap :: theap where
  "overlap_heap =
     (\<lambda>_. new_teacher [] [] 0 [] {||})
       (0 := new_teacher ''T'' ''One'' 30 ''t1@example.com'' {|''A'', ''B''|},
        1 := new_teacher ''T'' ''Two'' 25 ''t2@example.com'' {|''B'', ''C''|})"

text \<open>The pool of \<open>test_impossible_schedule\<close> (subject names transliterated).\<close>

definition impossible_heap :: theap where
  "impossible_heap =
     (\<lambda>_. new_teacher [] [] 0 [] {||})
       (0 := new_teacher ''Test'' ''Teacher1'' 30 ''test1@example.com'' {|''Mathematics''|},
        1 := new_teacher ''Test'' ''Teacher2'' 35 ''test2@example.com'' {|''Physics'', ''Chemistry''|})"

definition impossible_subjects :: "subject fset" where
  "impossible_subjects = {|''Mathematics'', ''Physics'', ''Chemistry'', ''Astronomy'', ''Geology''|}"

section \<open>Correctness of the partition\<close>

lemma py_index_ok: "0 \<le> i \<Longrightarrow> i < int (length xs) \<Longrightarrow> py_index xs i = Inr (nat i)"
  by (simp add: py_index_def)

lemma list_getitem_ok:
  "arr < length st \<Longrightarrow> 0 \<le> i \<Longrightarrow> i < int (length (st ! arr)) \<Longrightarrow>
   list_getitem st arr i = Inr (st ! arr ! nat i)"
  by (simp add: list_getitem_def py_index_ok)

lemma list_setitem_ok:
  "arr < length st \<Longrightarrow> 0 \<le> i \<Longrightarrow> i < int (length (st ! arr)) \<Longrightarrow>
   list_setitem st arr i v = Inr (st[arr := (st ! arr)[nat i := v]])"
  by (simp add: list_setitem_def py_index_ok)

lemma swap_items_ok:
  assumes "arr < length st" "0 \<le> p" "p < int (length (st ! arr))"
    "0 \<le> q" "q < int (length (st ! arr))"
  shows "swap_items st arr p q =
     Inr (st[arr := (st ! arr)[nat p := st ! arr ! nat q, nat q := st ! arr ! nat p]])"
  using assms by (simp add: swap_items_def list_getitem_ok list_setitem_ok)

lemma swap_items_spec:
  assumes "arr < length st" "0 \<le> p" "p < int (length (st ! arr))"
    "0 \<le> q" "q < int (length (st ! arr))"
  obtains ys where "swap_items st arr p q = Inr (st[arr := ys])"
    "length ys = length (st ! arr)" "mset ys = mset (st ! arr)"
    "ys ! nat p = st ! arr ! nat q" "ys ! nat q = st ! arr ! nat p"
    "\<And>k. 0 \<le> k \<Longrightarrow> k \<noteq> p \<Longrightarrow> k \<noteq> q \<Longrightarrow> ys ! nat k = st ! arr ! nat k"
proof -
  let ?xs = "st ! arr"
  let ?ys = "?xs[nat p := ?xs ! nat q, nat q := ?xs ! nat p]"
  have np: "nat p < length ?xs" and nq: "nat q < length ?xs" using assms by auto
  have 1: "swap_items st arr p q = Inr (st[arr := ?ys])" by (rule swap_items_ok[OF assms])
  have 2: "length ?ys = length ?xs" by simp
  have 3: "mset ?ys = mset ?xs" using np nq by (simp add: mset_swap)
  have 4: "?ys ! nat p = ?xs ! nat q" using np nq by (simp add: nth_list_update)
  have 5: "?ys ! nat q = ?xs ! nat p" using np nq by (simp add: nth_list_update)
  have 6: "\<And>k. 0 \<le> k \<Longrightarrow> k \<noteq> p \<Longrightarrow> k \<noteq> q \<Longrightarrow> ?ys ! nat k = ?xs ! nat k"
    using assms by (simp add: nth_list_update)
  from 1 2 3 4 5 6 show ?thesis by (rule that)
qed

lemma partition_loop_spec:
  assumes "arr < length st" "0 \<le> low" "low - 1 \<le> i" "i < j" "j \<le> high"
    "high < int (length (st ! arr))"
    "\<forall>k. low \<le> k \<and> k \<le> i \<longrightarrow> st ! arr ! nat k \<le> pivot"
    "\<forall>k. i < k \<and> k < j \<longrightarrow> pivot < st ! arr ! nat k"
  shows "\<exists>ys i'. partition_loop st arr pivot i j high = Inr (st[arr := ys], i') \<and>
     length ys = length (st ! arr) \<and> mset ys = mset (st ! arr) \<and> i \<le> i' \<and> i' < high \<and>
     (\<forall>k. low \<le> k \<and> k \<le> i' \<longrightarrow> ys ! nat k \<le> pivot) \<and>
     (\<forall>k. i' < k \<and> k < high \<longrightarrow> pivot < ys ! nat k) \<and>
     (\<forall>k. 0 \<le> k \<and> (k < low \<or> high \<le> k) \<longrightarrow> ys ! nat k = st ! arr ! nat k)"
  using assms
proof (induction st arr pivot i j high rule: partition_loop.induct)
  case (1 st arr pivot i j high)
  note unf = partition_loop.simps[of st arr pivot i j high]
  let ?xs = "st ! arr"
  show ?case
  proof (cases "j < high")
    case False
    with "1.prems" have jh: "j = high" by simp
    have "partition_loop st arr pivot i j high = Inr (st[arr := ?xs], i)"
      using False by (simp add: unf)
    moreover have "i < high" using "1.prems" jh by simp
    ultimately show ?thesis using "1.prems"(7,8) jh
      by (intro exI[of _ ?xs] exI[of _ i]) simp
  next
    case True
    have j0: "0 \<le> j" and jlen: "j < int (length ?xs)" using "1.prems" True by auto
    have x: "list_getitem st arr j = Inr (?xs ! nat j)"
      using "1.prems"(1) j0 jlen by (rule list_getitem_ok)
    show ?thesis
    proof (cases "?xs ! nat j \<le> pivot")
      case le: True
      have i0: "0 \<le> i + 1" and ilen: "i + 1 < int (length ?xs)" using "1.prems" True by auto
      from swap_items_spec[OF "1.prems"(1) i0 ilen j0 jlen] obtain ys1 where
        sw: "swap_items st arr (i + 1) j = Inr (st[arr := ys1])"
        and len1: "length ys1 = length ?xs" and ms1: "mset ys1 = mset ?xs"
        and at_i: "ys1 ! nat (i + 1) = ?xs ! nat j" and at_j: "ys1 ! nat j = ?xs ! nat (i + 1)"
        and other: "\<And>k. 0 \<le> k \<Longrightarrow> k \<noteq> i + 1 \<Longrightarrow> k \<noteq> j \<Longrightarrow> ys1 ! nat k = ?xs ! nat k"
        by blast
      let ?st1 = "st[arr := ys1]"
      have st1a: "?st1 ! arr = ys1" using "1.prems"(1) by simp
      have p1: "arr < length ?st1" using "1.prems"(1) by simp
      have p6: "high < int (length (?st1 ! arr))" using "1.prems" st1a len1 by simp
      have p7: "\<forall>k. low \<le> k \<and> k \<le> i + 1 \<longrightarrow> ?st1 ! arr ! nat k \<le> pivot"
      proof (intro allI impI)
        fix k assume k: "low \<le> k \<and> k \<le> i + 1"
        show "?st1 ! arr ! nat k \<le> pivot"
        proof (cases "k = i + 1")
          case True
          then show ?thesis using st1a at_i le by simp
        next
          case False
          with k "1.prems" have "ys1 ! nat k = ?xs ! nat k" by (intro other) auto
          moreover from k False "1.prems" have "?xs ! nat k \<le> pivot" by auto
          ultimately show ?thesis using st1a by simp
        qed
      qed
      have p8: "\<forall>k. i + 1 < k \<and> k < j + 1 \<longrightarrow> pivot < ?st1 ! arr ! nat k"
      proof (intro allI impI)
        fix k assume k: "i + 1 < k \<and> k < j + 1"
        show "pivot < ?st1 ! arr ! nat k"
        proof (cases "k = j")
          case True
          with k "1.prems" have "pivot < ?xs ! nat (i + 1)" by auto
          then show ?thesis using st1a at_j True by simp
        next
          case False
          with k "1.prems" have "ys1 ! nat k = ?xs ! nat k" by (intro other) auto
          moreover from k False "1.prems" have "pivot < ?xs ! nat k" by auto
          ultimately show ?thesis using st1a by simp
        qed
      qed
      from "1.IH"(1)[OF True x le sw p1 "1.prems"(2) _ _ _ p6 p7 p8] "1.prems" True
      obtain ys i' where
        rec: "partition_loop ?st1 arr pivot (i + 1) (j + 1) high = Inr (?st1[arr := ys], i')"
        and post: "length ys = length (?st1 ! arr)" "mset ys = mset (?st1 ! arr)"
          "i + 1 \<le> i'" "i' < high"
          "\<forall>k. low \<le> k \<and> k \<le> i' \<longrightarrow> ys ! nat k \<le> pivot"
          "\<forall>k. i' < k \<and> k < high \<longrightarrow> pivot < ys ! nat k"
          "\<forall>k. 0 \<le> k \<and> (k < low \<or> high \<le> k) \<longrightarrow> ys ! nat k = ?st1 ! arr ! nat k"
        by auto
      have res: "partition_loop st arr pivot i j high = Inr (st[arr := ys], i')"
        using True x le sw rec by (simp add: unf)
      have out: "\<forall>k. 0 \<le> k \<and> (k < low \<or> high \<le> k) \<longrightarrow> ys ! nat k = ?xs ! nat k"
      proof (intro allI impI)
        fix k assume k: "0 \<le> k \<and> (k < low \<or> high \<le> k)"
        with post(7) st1a have "ys ! nat k = ys1 ! nat k" by simp
        moreover from k "1.prems" True have "ys1 ! nat k = ?xs ! nat k" by (intro other) auto
        ultimately show "ys ! nat k = ?xs ! nat k" by simp
      qed
      from res post st1a len1 ms1 out show ?thesis by auto
    next
      case gt: False
      have p8: "\<forall>k. i < k \<and> k < j + 1 \<longrightarrow> pivot < ?xs ! nat k"
      proof (intro allI impI)
        fix k assume k: "i < k \<and> k < j + 1"
        show "pivot < ?xs ! nat k"
        proof (cases "k = j")
          case True
          then show ?thesis using gt by simp
        next
          case False
          with k "1.prems" show ?thesis by auto
        qed
      qed
      from "1.IH"(2)[OF True x gt "1.prems"(1,2,3) _ _ "1.prems"(6,7) p8] "1.prems" True
      obtain ys i' where
        rec: "partition_loop st arr pivot i (j + 1) high = Inr (st[arr := ys], i')"
        and post: "length ys = length ?xs" "mset ys = mset ?xs" "i \<le> i'" "i' < high"
          "\<forall>k. low \<le> k \<and> k \<le> i' \<longrightarrow> ys ! nat k \<le> pivot"
          "\<forall>k. i' < k \<and> k < high \<longrightarrow> pivot < ys ! nat k"
          "\<forall>k. 0 \<le> k \<and> (k < low \<or> high \<le> k) \<longrightarrow> ys ! nat k = ?xs ! nat k"
        by auto
      have res: "partition_loop st arr pivot i j high = Inr (st[arr := ys], i')"
        using True x gt rec by (simp add: unf)
      from res post show ?thesis by auto
    qed
  qed
qed

lemma deterministic_partition_spec:
  assumes "arr < length st" "0 \<le> low" "low \<le> high" "high < int (length (st ! arr))"
  shows "\<exists>ys p. deterministic_partition st arr low high = Inr (st[arr := ys], p) \<and>
     low \<le> p \<and> p \<le> high \<and> ys ! nat p = st ! arr ! nat high \<and>
     partitioned_at ys low p high \<and> same_outside (st ! arr) ys low high"
proof -
  let ?xs = "st ! arr"
  let ?pivot = "?xs ! nat high"
  have h0: "0 \<le> high" using assms by simp
  have piv: "list_getitem st arr high = Inr ?pivot"
    using assms(1) h0 assms(4) by (rule list_getitem_ok)
  have "\<exists>ys i'. partition_loop st arr ?pivot (low - 1) low high = Inr (st[arr := ys], i') \<and>
     length ys = length ?xs \<and> mset ys = mset ?xs \<and> low - 1 \<le> i' \<and> i' < high \<and>
     (\<forall>k. low \<le> k \<and> k \<le> i' \<longrightarrow> ys ! nat k \<le> ?pivot) \<and>
     (\<forall>k. i' < k \<and> k < high \<longrightarrow> ?pivot < ys ! nat k) \<and>
     (\<forall>k. 0 \<le> k \<and> (k < low \<or> high \<le> k) \<longrightarrow> ys ! nat k = ?xs ! nat k)"
    using assms by (intro partition_loop_spec) auto
  then obtain ys1 i where
    loop: "partition_loop st arr ?pivot (low - 1) low high = Inr (st[arr := ys1], i)"
    and len1: "length ys1 = length ?xs" and ms1: "mset ys1 = mset ?xs"
    and ib: "low - 1 \<le> i" "i < high"
    and small: "\<forall>k. low \<le> k \<and> k \<le> i \<longrightarrow> ys1 ! nat k \<le> ?pivot"
    and large: "\<forall>k. i < k \<and> k < high \<longrightarrow> ?pivot < ys1 ! nat k"
    and out1: "\<forall>k. 0 \<le> k \<and> (k < low \<or> high \<le> k) \<longrightarrow> ys1 ! nat k = ?xs ! nat k"
    by blast
  let ?st1 = "st[arr := ys1]"
  have st1a: "?st1 ! arr = ys1" using assms(1) by simp
  have a1: "arr < length ?st1" using assms(1) by simp
  have i0: "0 \<le> i + 1" and ilen: "i + 1 < int (length (?st1 ! arr))"
    and hlen: "high < int (length (?st1 ! arr))"
    using ib assms st1a len1 by auto
  from swap_items_spec[OF a1 i0 ilen h0 hlen] obtain ys2 where
    sw: "swap_items ?st1 arr (i + 1) high = Inr (?st1[arr := ys2])"
    and len2: "length ys2 = length ys1" and ms2: "mset ys2 = mset ys1"
    and at_p: "ys2 ! nat (i + 1) = ys1 ! nat high" and at_h: "ys2 ! nat high = ys1 ! nat (i + 1)"
    and other: "\<And>k. 0 \<le> k \<Longrightarrow> k \<noteq> i + 1 \<Longrightarrow> k \<noteq> high \<Longrightarrow> ys2 ! nat k = ys1 ! nat k"
    unfolding st1a by blast
  have res: "deterministic_partition st arr low high = Inr (st[arr := ys2], i + 1)"
    using piv loop sw by (simp add: deterministic_partition_def)
  have pv: "ys2 ! nat (i + 1) = ?pivot" using at_p out1 h0 by simp
  have part: "partitioned_at ys2 low (i + 1) high"
    unfolding partitioned_at_def pv
  proof (intro conjI allI impI)
    fix k assume k: "low \<le> k \<and> k < i + 1"
    with ib assms have "ys2 ! nat k = ys1 ! nat k" by (intro other) auto
    with k small show "ys2 ! nat k \<le> ?pivot" by simp
  next
    fix k assume k: "i + 1 < k \<and> k \<le> high"
    show "?pivot < ys2 ! nat k"
    proof (cases "k = high")
      case True
      with k large have "?pivot < ys1 ! nat (i + 1)" by simp
      with at_h True show ?thesis by simp
    next
      case False
      with k ib assms have "ys2 ! nat k = ys1 ! nat k" by (intro other) auto
      with k False large show ?thesis by simp
    qed
  qed
  have out: "same_outside ?xs ys2 low high"
    unfolding same_outside_def
  proof (intro conjI allI impI)
    show "length ys2 = length ?xs" using len1 len2 by simp
    show "mset ys2 = mset ?xs" using ms1 ms2 by simp
  next
    fix k assume k: "0 \<le> k \<and> (k < low \<or> high < k)"
    with ib have "ys2 ! nat k = ys1 ! nat k" by (intro other) auto
    with k out1 show "ys2 ! nat k = ?xs ! nat k" by auto
  qed
  from res ib pv part out show ?thesis by auto
qed

text \<open>Elements of a range that is permuted in place stay in the range.\<close>

lemma same_outside_subrange:
  assumes "same_outside xs ys low high" "0 \<le> low" "high < int (length xs)"
  shows "mset (subrange ys low high) = mset (subrange xs low high)"
proof -
  let ?l = "nat low" and ?n = "nat (high - low + 1)"
  from assms(1) have len: "length ys = length xs" and ms: "mset ys = mset xs"
    and out: "\<And>k. 0 \<le> k \<Longrightarrow> k < low \<or> high < k \<Longrightarrow> ys ! nat k = xs ! nat k"
    by (auto simp: same_outside_def)
  have split: "mset zs = mset (take ?l zs) + (mset (take ?n (drop ?l zs)) + mset (drop (?l + ?n) zs))"
    for zs :: "int list"
  proof -
    have "mset (take ?n (drop ?l zs)) + mset (drop (?l + ?n) zs)
        = mset (take ?n (drop ?l zs) @ drop ?n (drop ?l zs))"
      by (simp only: mset_append drop_drop add.commute)
    also have "\<dots> = mset (drop ?l zs)" by (simp only: append_take_drop_id)
    finally have "mset (take ?l zs) + (mset (take ?n (drop ?l zs)) + mset (drop (?l + ?n) zs))
        = mset (take ?l zs @ drop ?l zs)"
      by (simp only: mset_append)
    then show ?thesis by (simp only: append_take_drop_id)
  qed
  have outl: "ys ! n = xs ! n" if "n < ?l" for n
  proof -
    from that have "int n < low" by linarith
    then show ?thesis using out[of "int n"] by simp
  qed
  have outr: "ys ! n = xs ! n" if "?l + ?n \<le> n" for n
  proof -
    from that assms(2) have "high < int n" by linarith
    then show ?thesis using out[of "int n"] by simp
  qed
  have pre: "take ?l ys = take ?l xs"
  proof (rule nth_equalityI)
    show "length (take ?l ys) = length (take ?l xs)" using len by simp
  next
    fix n assume "n < length (take ?l ys)"
    then have "n < ?l" by simp
    with outl[OF this] show "take ?l ys ! n = take ?l xs ! n" by simp
  qed
  have post: "drop (?l + ?n) ys = drop (?l + ?n) xs"
  proof (rule nth_equalityI)
    show "length (drop (?l + ?n) ys) = length (drop (?l + ?n) xs)" using len by simp
  next
    fix n assume n: "n < length (drop (?l + ?n) ys)"
    have "ys ! (?l + ?n + n) = xs ! (?l + ?n + n)" by (rule outr) simp
    with n len show "drop (?l + ?n) ys ! n = drop (?l + ?n) xs ! n" by simp
  qed
  have "mset (take ?l xs) + (mset (take ?n (drop ?l ys)) + mset (drop (?l + ?n) xs))
      = mset (take ?l xs) + (mset (take ?n (drop ?l xs)) + mset (drop (?l + ?n) xs))"
    using split[of ys] split[of xs] ms pre post by simp
  then show ?thesis unfolding subrange_def by simp
qed

lemma subrange_nth:
  assumes "0 \<le> low" "low \<le> k" "k \<le> high" "high < int (length xs)"
  shows "xs ! nat k \<in> set (subrange xs low high)"
proof -
  have "nat k - nat low < length (subrange xs low high)"
    using assms by (auto simp: subrange_def)
  moreover have "subrange xs low high ! (nat k - nat low) = xs ! nat k"
    using assms by (auto simp: subrange_def)
  ultimately show ?thesis using nth_mem by fastforce
qed

lemma subrange_elem:
  assumes "x \<in> set (subrange xs low high)" "0 \<le> low"
  shows "\<exists>m. low \<le> m \<and> m \<le> high \<and> x = xs ! nat m"
proof -
  from assms(1) obtain n where n: "n < length (subrange xs low high)"
    and x: "x = subrange xs low high ! n"
    by (metis in_set_conv_nth)
  from n have n1: "n < nat (high - low + 1)" and n2: "nat low + n < length xs"
    by (auto simp: subrange_def)
  from x n1 n2 have "x = xs ! (nat low + n)" by (simp add: subrange_def)
  moreover have "nat (low + int n) = nat low + n" using assms(2) by simp
  ultimately have "x = xs ! nat (low + int n)" by simp
  moreover have "low \<le> low + int n" "low + int n \<le> high" using n1 by auto
  ultimately show ?thesis by blast
qed

lemma same_outside_elem:
  assumes "same_outside xs ys low high" "0 \<le> low" "high < int (length xs)"
    "low \<le> k" "k \<le> high"
  shows "\<exists>m. low \<le> m \<and> m \<le> high \<and> ys ! nat k = xs ! nat m"
proof -
  have len: "length ys = length xs" using assms(1) by (simp add: same_outside_def)
  have "ys ! nat k \<in> set (subrange ys low high)"
    using assms len by (intro subrange_nth) auto
  also have "set (subrange ys low high) = set (subrange xs low high)"
    using same_outside_subrange[OF assms(1,2,3)] by (metis set_mset_mset)
  finally show ?thesis using assms(2) by (rule subrange_elem)
qed

section \<open>Correctness of the recursive helpers\<close>

lemma same_outside_refl: "same_outside xs xs low high"
  by (simp add: same_outside_def)

lemma same_outside_length: "same_outside xs ys low high \<Longrightarrow> length ys = length xs"
  by (simp add: same_outside_def)

lemma same_outside_mset: "same_outside xs ys low high \<Longrightarrow> mset ys = mset xs"
  by (simp add: same_outside_def)

lemma same_outside_nth:
  "same_outside xs ys low high \<Longrightarrow> 0 \<le> k \<Longrightarrow> k < low \<or> high < k \<Longrightarrow> ys ! nat k = xs ! nat k"
  by (simp add: same_outside_def)

text \<open>
  One level of the recursion, on lists: a partition at \<open>p\<close>, then the left range sorted in
  place, then the right range sorted in place.
\<close>

lemma quick_sort_combine:
  assumes low: "0 \<le> low" and lp: "low \<le> p" and ph: "p \<le> high"
    and high: "high < int (length xs)"
    and part: "partitioned_at ys1 low p high" and fr1: "same_outside xs ys1 low high"
    and fr2: "same_outside ys1 ys2 low (p - 1)" and so2: "sorted_between ys2 low (p - 1)"
    and fr3: "same_outside ys2 ys3 (p + 1) high" and so3: "sorted_between ys3 (p + 1) high"
  shows "same_outside xs ys3 low high \<and> sorted_between ys3 low high"
proof
  have len1: "length ys1 = length xs" and len2: "length ys2 = length xs"
    using fr1 fr2 by (simp_all add: same_outside_length)
  have p0: "0 \<le> p" using low lp by simp
  show "same_outside xs ys3 low high"
    unfolding same_outside_def
  proof (intro conjI allI impI)
    show "length ys3 = length xs" using fr1 fr2 fr3 by (simp add: same_outside_length)
    show "mset ys3 = mset xs" using fr1 fr2 fr3 by (simp add: same_outside_mset)
  next
    fix k assume k: "0 \<le> k \<and> (k < low \<or> high < k)"
    then have "ys3 ! nat k = ys2 ! nat k" using lp by (intro same_outside_nth[OF fr3]) auto
    also have "\<dots> = ys1 ! nat k" using k ph by (intro same_outside_nth[OF fr2]) auto
    also have "\<dots> = xs ! nat k" using k by (intro same_outside_nth[OF fr1]) auto
    finally show "ys3 ! nat k = xs ! nat k" .
  qed
  have mid: "ys3 ! nat p = ys1 ! nat p"
  proof -
    have "ys3 ! nat p = ys2 ! nat p" using p0 by (intro same_outside_nth[OF fr3]) auto
    also have "\<dots> = ys1 ! nat p" using p0 by (intro same_outside_nth[OF fr2]) auto
    finally show ?thesis .
  qed
  have left: "ys3 ! nat k \<le> ys1 ! nat p" if k: "low \<le> k" "k < p" for k
  proof -
    have "ys3 ! nat k = ys2 ! nat k" using k low by (intro same_outside_nth[OF fr3]) auto
    moreover obtain m where "low \<le> m" "m \<le> p - 1" "ys2 ! nat k = ys1 ! nat m"
      using same_outside_elem[OF fr2 low, of k] k ph high len1 by auto
    moreover from this part have "ys1 ! nat m \<le> ys1 ! nat p"
      by (simp add: partitioned_at_def)
    ultimately show ?thesis by simp
  qed
  have right: "ys1 ! nat p < ys3 ! nat l" if l: "p < l" "l \<le> high" for l
  proof -
    have "0 \<le> p + 1" using p0 by simp
    from same_outside_elem[OF fr3 this, of l] l high len2
    obtain m where m: "p + 1 \<le> m" "m \<le> high" "ys3 ! nat l = ys2 ! nat m" by auto
    then have "ys2 ! nat m = ys1 ! nat m" using p0 by (intro same_outside_nth[OF fr2]) auto
    moreover from m part have "ys1 ! nat p < ys1 ! nat m" by (simp add: partitioned_at_def)
    ultimately show ?thesis using m by simp
  qed
  show "sorted_between ys3 low high"
    unfolding sorted_between_def
  proof (intro allI impI)
    fix k l assume kl: "low \<le> k \<and> k \<le> l \<and> l \<le> high"
    consider "l < p" | "p < k" | "k < p" "l = p" | "k = p" "p < l" | "k < p" "p < l" | "k = p" "l = p"
      using kl by linarith
    then show "ys3 ! nat k \<le> ys3 ! nat l"
    proof cases
      case 1
      have "ys3 ! nat k = ys2 ! nat k" using 1 kl low by (intro same_outside_nth[OF fr3]) auto
      moreover have "ys3 ! nat l = ys2 ! nat l"
        using 1 kl low by (intro same_outside_nth[OF fr3]) auto
      moreover have "ys2 ! nat k \<le> ys2 ! nat l" using so2 1 kl by (simp add: sorted_between_def)
      ultimately show ?thesis by simp
    next
      case 2
      then show ?thesis using so3 kl by (simp add: sorted_between_def)
    next
      case 3
      then show ?thesis using left[of k] kl mid by simp
    next
      case 4
      then show ?thesis using right[of l] kl mid by simp
    next
      case 5
      then show ?thesis using left[of k] right[of l] kl by simp
    next
      case 6
      then show ?thesis by simp
    qed
  qed
qed

lemma sorted_between_trivial: "high \<le> low \<Longrightarrow> sorted_between ys low high"
  unfolding sorted_between_def
proof (intro allI impI)
  fix k l assume "high \<le> low" "low \<le> k \<and> k \<le> l \<and> l \<le> high"
  then have "k = l" by simp
  then show "ys ! nat k \<le> ys ! nat l" by simp
qed

text \<open>
  The frames a helper needs in the worst case: one for a range of at most one element, and
  otherwise one for each element of the range (the pivot may land at an end every time).
\<close>

lemma range_size_left:
  assumes "low < high" "low \<le> p" "p \<le> high"
  shows "max 1 (nat ((p - 1) - low + 1)) \<le> nat (high - low + 1) - 1"
  using assms by auto

lemma range_size_right:
  assumes "low < high" "low \<le> p" "p \<le> high"
  shows "max 1 (nat (high - (p + 1) + 1)) \<le> nat (high - low + 1) - 1"
  using assms by auto

lemma deterministic_quick_sort_helper_spec:
  assumes "arr < length st" "0 \<le> low" "high < int (length (st ! arr))"
  shows "(\<exists>ys. deterministic_quick_sort_helper frames st arr low high = Inr (st[arr := ys]) \<and>
            same_outside (st ! arr) ys low high \<and> sorted_between ys low high) \<or>
         (deterministic_quick_sort_helper frames st arr low high = Inl RecursionError \<and>
            frames < max 1 (nat (high - low + 1)))"
  using assms
proof (induction frames st arr low high rule: deterministic_quick_sort_helper.induct)
  case (1 frames st arr low high)
  note unf = deterministic_quick_sort_helper.simps[of frames st arr low high]
  let ?xs = "st ! arr"
  show ?case
  proof (cases frames)
    case 0
    then have "deterministic_quick_sort_helper frames st arr low high = Inl RecursionError"
      by (subst unf) simp
    with 0 show ?thesis by simp
  next
    case (Suc rest)
    show ?thesis
    proof (cases "low < high")
      case False
      then have "deterministic_quick_sort_helper frames st arr low high = Inr (st[arr := ?xs])"
        using Suc by (subst unf) simp
      moreover have "sorted_between ?xs low high"
        using False by (intro sorted_between_trivial) simp
      ultimately show ?thesis using same_outside_refl by blast
    next
      case True
      show ?thesis
      proof (cases "rest = 0")
        case zero: True
        then have "deterministic_quick_sort_helper frames st arr low high = Inl RecursionError"
          using Suc True by (subst unf) (simp add: py_call_def)
        moreover have "frames < max 1 (nat (high - low + 1))" using Suc zero True by simp
        ultimately show ?thesis by simp
      next
        case pos: False
        from deterministic_partition_spec[OF "1.prems"(1,2) _ "1.prems"(3)] True
        obtain ys1 p where
          part: "deterministic_partition st arr low high = Inr (st[arr := ys1], p)"
          and pb: "low \<le> p" "p \<le> high"
          and pa: "partitioned_at ys1 low p high" and fr1: "same_outside ?xs ys1 low high"
          by auto
        have call: "py_call rest (deterministic_partition st arr low high)
            = Inr (st[arr := ys1], p)"
          using part pos by (simp add: py_call_def)
        let ?st1 = "st[arr := ys1]"
        have a1: "arr < length ?st1" using "1.prems"(1) by simp
        have st1a: "?st1 ! arr = ys1" using "1.prems"(1) by simp
        have len1: "length ys1 = length ?xs" using fr1 by (rule same_outside_length)
        have h1: "p - 1 < int (length (?st1 ! arr))" using pb "1.prems"(3) st1a len1 by simp
        note sz1 = range_size_left[OF True pb] and sz2 = range_size_right[OF True pb]
        from "1.IH"(1)[OF Suc True call refl a1 "1.prems"(2) h1]
        consider (ok1) ys2 where
            "deterministic_quick_sort_helper rest ?st1 arr low (p - 1) = Inr (?st1[arr := ys2])"
            "same_outside ys1 ys2 low (p - 1)" "sorted_between ys2 low (p - 1)"
          | (deep1) "deterministic_quick_sort_helper rest ?st1 arr low (p - 1) = Inl RecursionError"
            "rest < max 1 (nat ((p - 1) - low + 1))"
          unfolding st1a by blast
        then show ?thesis
        proof cases
          case deep1
          have "deterministic_quick_sort_helper frames st arr low high = Inl RecursionError"
            using Suc True call deep1(1) by (subst unf) simp
          moreover have "frames < max 1 (nat (high - low + 1))"
            using deep1(2) sz1 Suc by arith
          ultimately show ?thesis by simp
        next
          case ok1
          note rec1 = ok1(1) and fr2 = ok1(2) and so2 = ok1(3)
          let ?st2 = "st[arr := ys2]"
          have st2: "?st1[arr := ys2] = ?st2" by simp
          have a2: "arr < length ?st2" using "1.prems"(1) by simp
          have st2a: "?st2 ! arr = ys2" using "1.prems"(1) by simp
          have len2: "length ys2 = length ys1" using fr2 by (rule same_outside_length)
          have l2: "0 \<le> p + 1" using pb "1.prems"(2) by simp
          have h2: "high < int (length (?st2 ! arr))" using "1.prems"(3) st2a len1 len2 by simp
          from "1.IH"(2)[OF Suc True call refl rec1[unfolded st2] a2 l2 h2]
          consider (ok2) ys3 where
              "deterministic_quick_sort_helper rest ?st2 arr (p + 1) high = Inr (?st2[arr := ys3])"
              "same_outside ys2 ys3 (p + 1) high" "sorted_between ys3 (p + 1) high"
            | (deep2) "deterministic_quick_sort_helper rest ?st2 arr (p + 1) high = Inl RecursionError"
              "rest < max 1 (nat (high - (p + 1) + 1))"
            unfolding st2a by blast
          then show ?thesis
          proof cases
            case deep2
            have "deterministic_quick_sort_helper frames st arr low high = Inl RecursionError"
              using Suc True call rec1 deep2(1) by (subst unf) simp
            moreover have "frames < max 1 (nat (high - low + 1))"
              using deep2(2) sz2 Suc by arith
            ultimately show ?thesis by simp
          next
            case ok2
            have res: "deterministic_quick_sort_helper frames st arr low high = Inr (st[arr := ys3])"
              using Suc True call rec1 ok2(1) by (subst unf) simp
            from quick_sort_combine[OF "1.prems"(2) pb "1.prems"(3) pa fr1 fr2 so2 ok2(2,3)] res
            show ?thesis by blast
          qed
        qed
      qed
    qed
  qed
qed

lemma same_outside_trans:
  assumes "same_outside xs ys low high" "same_outside ys zs low high"
  shows "same_outside xs zs low high"
  using assms by (simp add: same_outside_def)

lemma randomized_partition_unfold:
  "low \<le> high \<Longrightarrow> rd \<le> rest \<Longrightarrow> 0 < rest \<Longrightarrow>
   randomized_partition rng rd g (Suc rest) st arr low high =
     (case swap_items st arr (fst (rng g low high)) high of
        Inl e \<Rightarrow> Inl e
      | Inr st1 \<Rightarrow>
          (case deterministic_partition st1 arr low high of
             Inl e \<Rightarrow> Inl e
           | Inr (st2, p) \<Rightarrow> Inr (st2, p, snd (rng g low high))))"
  by (simp add: randomized_partition_def randint_def py_call_def split_beta split: sum.splits)

lemma randomized_partition_deep:
  assumes "rng_in_range rng"
    and "arr < length st" "0 \<le> low" "low \<le> high" "high < int (length (st ! arr))"
    and "frames < 1 + max rd 1"
  shows "randomized_partition rng rd g frames st arr low high = Inl RecursionError"
proof (cases frames)
  case 0
  then show ?thesis by (simp add: randomized_partition_def)
next
  case (Suc rest)
  show ?thesis
  proof (cases "rest < rd")
    case True
    then show ?thesis using Suc by (simp add: randomized_partition_def randint_def)
  next
    case False
    with assms(6) Suc have rest0: "rest = 0" by simp
    let ?r = "fst (rng g low high)"
    have rb: "low \<le> ?r" "?r \<le> high" using assms(1,4) by (auto simp: rng_in_range_def)
    have r0: "0 \<le> ?r" and rlen: "?r < int (length (st ! arr))" and h0: "0 \<le> high"
      using rb assms by auto
    from swap_items_spec[OF assms(2) r0 rlen h0 assms(5)] obtain ys0 where
      sw: "swap_items st arr ?r high = Inr (st[arr := ys0])" by blast
    show ?thesis
      using Suc False rest0 assms(4) sw
      by (simp add: randomized_partition_def randint_def py_call_def split_beta)
  qed
qed

lemma randomized_partition_spec:
  assumes rng: "rng_in_range rng"
    and "arr < length st" "0 \<le> low" "low \<le> high" "high < int (length (st ! arr))"
    and fr: "1 + max rd 1 \<le> frames"
  shows "\<exists>ys p. randomized_partition rng rd g frames st arr low high =
       Inr (st[arr := ys], p, snd (rng g low high)) \<and>
     low \<le> p \<and> p \<le> high \<and> ys ! nat p = st ! arr ! nat (fst (rng g low high)) \<and>
     partitioned_at ys low p high \<and> same_outside (st ! arr) ys low high"
proof -
  from fr obtain rest where fs: "frames = Suc rest" and rest: "rd \<le> rest" "0 < rest"
    by (cases frames) auto
  let ?xs = "st ! arr"
  let ?r = "fst (rng g low high)"
  have rb: "low \<le> ?r" "?r \<le> high"
    using rng assms(4) by (auto simp: rng_in_range_def)
  have r0: "0 \<le> ?r" and rlen: "?r < int (length ?xs)"
    and h0: "0 \<le> high" using rb assms by auto
  from swap_items_spec[OF assms(2) r0 rlen h0 assms(5)] obtain ys0 where
    sw: "swap_items st arr ?r high = Inr (st[arr := ys0])"
    and len0: "length ys0 = length ?xs" and ms0: "mset ys0 = mset ?xs"
    and at_h: "ys0 ! nat high = ?xs ! nat ?r"
    and other: "\<And>k. 0 \<le> k \<Longrightarrow> k \<noteq> ?r \<Longrightarrow> k \<noteq> high \<Longrightarrow> ys0 ! nat k = ?xs ! nat k"
    by blast
  have fr0: "same_outside ?xs ys0 low high"
    unfolding same_outside_def
  proof (intro conjI allI impI)
    fix k assume "0 \<le> k \<and> (k < low \<or> high < k)"
    with rb show "ys0 ! nat k = ?xs ! nat k" by (intro other) auto
  qed (rule len0, rule ms0)
  let ?st0 = "st[arr := ys0]"
  have a0: "arr < length ?st0" using assms(2) by simp
  have st0a: "?st0 ! arr = ys0" using assms(2) by simp
  have hl: "high < int (length (?st0 ! arr))" using assms(5) st0a len0 by simp
  from deterministic_partition_spec[OF a0 assms(3,4) hl] obtain ys p where
    part: "deterministic_partition ?st0 arr low high = Inr (?st0[arr := ys], p)"
    and post: "low \<le> p" "p \<le> high" "partitioned_at ys low p high"
      "same_outside ys0 ys low high"
    and piv: "ys ! nat p = ys0 ! nat high"
    unfolding st0a by blast
  have "randomized_partition rng rd g frames st arr low high
      = Inr (st[arr := ys], p, snd (rng g low high))"
    using assms(4) sw part rest unfolding fs by (simp add: randomized_partition_unfold)
  moreover have "ys ! nat p = ?xs ! nat ?r" using piv at_h by simp
  ultimately show ?thesis using post same_outside_trans[OF fr0 post(4)] by blast
qed

lemma randomized_quick_sort_helper_spec:
  assumes "rng_in_range rng" "arr < length st" "0 \<le> low" "high < int (length (st ! arr))"
  shows "(\<exists>ys g'. randomized_quick_sort_helper rng rd g frames st arr low high
              = Inr (st[arr := ys], g') \<and>
            same_outside (st ! arr) ys low high \<and> sorted_between ys low high) \<or>
         (randomized_quick_sort_helper rng rd g frames st arr low high = Inl RecursionError \<and>
            frames < (if low < high then nat (high - low + 1) + max rd 1 else 1))"
  using assms
proof (induction rng rd g frames st arr low high rule: randomized_quick_sort_helper.induct)
  case (1 rng rd g frames st arr low high)
  note unf = randomized_quick_sort_helper.simps[of rng rd g frames st arr low high]
  note rng = "1.prems"(1) and arr = "1.prems"(2) and low = "1.prems"(3) and high = "1.prems"(4)
  let ?xs = "st ! arr"
  show ?case
  proof (cases frames)
    case 0
    then have "randomized_quick_sort_helper rng rd g frames st arr low high = Inl RecursionError"
      by (subst unf) simp
    with 0 show ?thesis by simp
  next
    case (Suc rest)
    show ?thesis
    proof (cases "low < high")
      case False
      then have "randomized_quick_sort_helper rng rd g frames st arr low high
          = Inr (st[arr := ?xs], g)"
        using Suc by (subst unf) simp
      moreover have "sorted_between ?xs low high"
        using False by (intro sorted_between_trivial) simp
      ultimately show ?thesis using same_outside_refl by blast
    next
      case True
      then have le: "low \<le> high" by simp
      show ?thesis
      proof (cases "rest < 1 + max rd 1")
        case shallow: True
        from randomized_partition_deep[OF rng arr low le high shallow]
        have "randomized_quick_sort_helper rng rd g frames st arr low high = Inl RecursionError"
          using Suc True by (subst unf) simp
        moreover have "frames < nat (high - low + 1) + max rd 1"
          using shallow Suc True by simp
        ultimately show ?thesis using True by simp
      next
        case enough: False
        then have fr: "1 + max rd 1 \<le> rest" by simp
        let ?g1 = "snd (rng g low high)"
        from randomized_partition_spec[OF rng arr low le high fr, of g]
        obtain ys1 p where
          part: "randomized_partition rng rd g rest st arr low high = Inr (st[arr := ys1], p, ?g1)"
          and pb: "low \<le> p" "p \<le> high"
          and pa: "partitioned_at ys1 low p high" and fr1: "same_outside ?xs ys1 low high"
          by blast
        let ?st1 = "st[arr := ys1]"
        have a1: "arr < length ?st1" using arr by simp
        have st1a: "?st1 ! arr = ys1" using arr by simp
        have len1: "length ys1 = length ?xs" using fr1 by (rule same_outside_length)
        have h1: "p - 1 < int (length (?st1 ! arr))" using pb high st1a len1 by simp
        from "1.IH"(1)[OF Suc True part refl refl rng a1 low h1]
        consider (ok1) ys2 g2 where
            "randomized_quick_sort_helper rng rd ?g1 rest ?st1 arr low (p - 1)
               = Inr (?st1[arr := ys2], g2)"
            "same_outside ys1 ys2 low (p - 1)" "sorted_between ys2 low (p - 1)"
          | (deep1) "randomized_quick_sort_helper rng rd ?g1 rest ?st1 arr low (p - 1)
               = Inl RecursionError"
            "rest < (if low < p - 1 then nat ((p - 1) - low + 1) + max rd 1 else 1)"
          unfolding st1a by blast
        then show ?thesis
        proof cases
          case deep1
          have "randomized_quick_sort_helper rng rd g frames st arr low high = Inl RecursionError"
            using Suc True part deep1(1) by (subst unf) simp
          moreover have "frames < nat (high - low + 1) + max rd 1"
            using deep1(2) fr pb True Suc by (auto split: if_splits)
          ultimately show ?thesis using True by simp
        next
          case ok1
          note rec1 = ok1(1) and fr2 = ok1(2) and so2 = ok1(3)
          let ?st2 = "st[arr := ys2]"
          have st2: "?st1[arr := ys2] = ?st2" by simp
          have a2: "arr < length ?st2" using arr by simp
          have st2a: "?st2 ! arr = ys2" using arr by simp
          have len2: "length ys2 = length ys1" using fr2 by (rule same_outside_length)
          have l2: "0 \<le> p + 1" using pb low by simp
          have h2: "high < int (length (?st2 ! arr))" using high st2a len1 len2 by simp
          from "1.IH"(2)[OF Suc True part refl refl rec1[unfolded st2] refl rng a2 l2 h2]
          consider (ok2) ys3 g3 where
              "randomized_quick_sort_helper rng rd g2 rest ?st2 arr (p + 1) high
                 = Inr (?st2[arr := ys3], g3)"
              "same_outside ys2 ys3 (p + 1) high" "sorted_between ys3 (p + 1) high"
            | (deep2) "randomized_quick_sort_helper rng rd g2 rest ?st2 arr (p + 1) high
                 = Inl RecursionError"
              "rest < (if p + 1 < high then nat (high - (p + 1) + 1) + max rd 1 else 1)"
            unfolding st2a by blast
          then show ?thesis
          proof cases
            case deep2
            have "randomized_quick_sort_helper rng rd g frames st arr low high
                = Inl RecursionError"
              using Suc True part rec1 deep2(1) by (subst unf) simp
            moreover have "frames < nat (high - low + 1) + max rd 1"
              using deep2(2) fr pb True Suc by (auto split: if_splits)
            ultimately show ?thesis using True by simp
          next
            case ok2
            have res: "randomized_quick_sort_helper rng rd g frames st arr low high
                = Inr (st[arr := ys3], g3)"
              using Suc True part rec1 ok2(1) by (subst unf) simp
            from quick_sort_combine[OF low pb high pa fr1 fr2 so2 ok2(2,3)] res
            show ?thesis by blast
          qed
        qed
      qed
    qed
  qed
qed

section \<open>The entry points\<close>

lemma sorted_between_whole:
  assumes "sorted_between ys 0 (int (length ys) - 1)"
  shows "sorted ys"
  unfolding sorted_iff_nth_mono
proof (intro allI impI)
  fix i j assume "i \<le> j" "j < length ys"
  then have "0 \<le> int i \<and> int i \<le> int j \<and> int j \<le> int (length ys) - 1" by simp
  with assms have "ys ! nat (int i) \<le> ys ! nat (int j)"
    unfolding sorted_between_def by blast
  then show "ys ! i \<le> ys ! j" by simp
qed

lemma sorted_whole_is_sort:
  assumes "same_outside xs ys 0 (int (length xs) - 1)"
    "sorted_between ys 0 (int (length xs) - 1)"
  shows "ys = sort xs"
proof -
  have len: "length ys = length xs" using assms(1) by (rule same_outside_length)
  have "sorted ys" using assms(2) len by (intro sorted_between_whole) simp
  moreover have "mset ys = mset xs" using assms(1) by (rule same_outside_mset)
  ultimately show ?thesis by (simp add: properties_for_sort)
qed

lemma deterministic_quick_sort_cases:
  assumes "arr < length st"
  shows "deterministic_quick_sort frames st arr = Inr (st @ [sort (st ! arr)], length st) \<or>
         (deterministic_quick_sort frames st arr = Inl RecursionError \<and>
            frames \<le> max 1 (length (st ! arr)))"
proof (cases frames)
  case 0
  then show ?thesis by (simp add: deterministic_quick_sort_def)
next
  case (Suc rest)
  let ?xs = "st ! arr"
  let ?st1 = "st @ [?xs]"
  let ?c = "length st"
  have c: "?c < length ?st1" by simp
  have st1c: "?st1 ! ?c = ?xs" by simp
  have h: "int (length ?xs) - 1 < int (length (?st1 ! ?c))" by simp
  have unf: "deterministic_quick_sort frames st arr =
      (case deterministic_quick_sort_helper rest ?st1 ?c 0 (int (length ?xs) - 1) of
         Inl e \<Rightarrow> Inl e | Inr st2 \<Rightarrow> Inr (st2, ?c))"
    using assms Suc by (simp add: deterministic_quick_sort_def list_copy_def list_len_def)
  from deterministic_quick_sort_helper_spec[OF c _ h, of 0 rest]
  consider (ok) ys where
      "deterministic_quick_sort_helper rest ?st1 ?c 0 (int (length ?xs) - 1) = Inr (?st1[?c := ys])"
      "same_outside ?xs ys 0 (int (length ?xs) - 1)" "sorted_between ys 0 (int (length ?xs) - 1)"
    | (deep) "deterministic_quick_sort_helper rest ?st1 ?c 0 (int (length ?xs) - 1)
        = Inl RecursionError"
      "rest < max 1 (nat (int (length ?xs) - 1 - 0 + 1))"
    unfolding st1c by auto
  then show ?thesis
  proof cases
    case ok
    have "ys = sort ?xs" using ok(2,3) by (rule sorted_whole_is_sort)
    with ok(1) have "deterministic_quick_sort_helper rest ?st1 ?c 0 (int (length ?xs) - 1)
        = Inr (st @ [sort ?xs])" by simp
    then show ?thesis unfolding unf by simp
  next
    case deep
    from deep(2) Suc have "frames \<le> max 1 (length ?xs)" by simp
    with deep(1) show ?thesis unfolding unf by simp
  qed
qed

lemma randomized_quick_sort_cases:
  assumes "rng_in_range rng" "arr < length st"
  shows "(\<exists>g'. randomized_quick_sort rng rd g frames st arr
             = Inr (st @ [sort (st ! arr)], length st, g')) \<or>
         (randomized_quick_sort rng rd g frames st arr = Inl RecursionError \<and>
            frames \<le> length (st ! arr) + max rd 1)"
proof (cases frames)
  case 0
  then show ?thesis by (simp add: randomized_quick_sort_def)
next
  case (Suc rest)
  let ?xs = "st ! arr"
  let ?st1 = "st @ [?xs]"
  let ?c = "length st"
  have c: "?c < length ?st1" by simp
  have st1c: "?st1 ! ?c = ?xs" by simp
  have h: "int (length ?xs) - 1 < int (length (?st1 ! ?c))" by simp
  have unf: "randomized_quick_sort rng rd g frames st arr =
      (case randomized_quick_sort_helper rng rd g rest ?st1 ?c 0 (int (length ?xs) - 1) of
         Inl e \<Rightarrow> Inl e | Inr (st2, g1) \<Rightarrow> Inr (st2, ?c, g1))"
    using assms Suc by (simp add: randomized_quick_sort_def list_copy_def list_len_def)
  from randomized_quick_sort_helper_spec[OF assms(1) c _ h, of 0 rd g rest]
  consider (ok) ys g' where
      "randomized_quick_sort_helper rng rd g rest ?st1 ?c 0 (int (length ?xs) - 1)
         = Inr (?st1[?c := ys], g')"
      "same_outside ?xs ys 0 (int (length ?xs) - 1)" "sorted_between ys 0 (int (length ?xs) - 1)"
    | (deep) "randomized_quick_sort_helper rng rd g rest ?st1 ?c 0 (int (length ?xs) - 1)
        = Inl RecursionError"
      "rest < (if 0 < int (length ?xs) - 1
               then nat (int (length ?xs) - 1 - 0 + 1) + max rd 1 else 1)"
    unfolding st1c by auto
  then show ?thesis
  proof cases
    case ok
    have "ys = sort ?xs" using ok(2,3) by (rule sorted_whole_is_sort)
    with ok(1) have "randomized_quick_sort_helper rng rd g rest ?st1 ?c 0 (int (length ?xs) - 1)
        = Inr (st @ [sort ?xs], g')" by simp
    then show ?thesis unfolding unf by simp
  next
    case deep
    from deep(2) Suc have "frames \<le> length ?xs + max rd 1" by (auto split: if_splits)
    with deep(1) show ?thesis unfolding unf by simp
  qed
qed

lemma deterministic_quick_sort_eq:
  assumes "arr < length st" and "max 1 (length (st ! arr)) < frames"
  shows "deterministic_quick_sort frames st arr = Inr (st @ [sort (st ! arr)], length st)"
  using deterministic_quick_sort_cases[OF assms(1), of frames] assms(2) by auto

lemma randomized_quick_sort_eq:
  assumes "rng_in_range rng" "arr < length st" and "length (st ! arr) + max rd 1 < frames"
  shows "\<exists>g'. randomized_quick_sort rng rd g frames st arr
     = Inr (st @ [sort (st ! arr)], length st, g')"
  using randomized_quick_sort_cases[OF assms(1,2), of rd g frames] assms(3) by auto

section \<open>Inputs that use one frame for each element\<close>












section \<open>Properties of the sort\<close>

lemma counter_rng_in_range: "rng_in_range counter_rng"
  unfolding rng_in_range_def counter_rng_def
proof (intro allI impI)
  fix g :: nat and a b :: int
  assume "a \<le> b"
  then have pos: "0 < b - a + 1" by simp
  have "0 \<le> int g mod (b - a + 1)" using pos by simp
  moreover have "int g mod (b - a + 1) < b - a + 1" using pos by (rule pos_mod_bound)
  ultimately show "a \<le> fst (a + int g mod (b - a + 1), Suc g) \<and>
      fst (a + int g mod (b - a + 1), Suc g) \<le> b" by simp
qed







text \<open>
  C6. For indices \<open>0 \<le> low \<le> high < len(arr)\<close>, \<open>deterministic_partition\<close> (the scan of
  \<open>j\<close> over \<open>[low, high)\<close> with boundary \<open>i\<close> starting at \<open>low - 1\<close>, then the swap of
  the pivot into \<open>i + 1\<close>) returns an index \<open>p\<close> in \<open>[low, high]\<close> and touches only the
  list it was given; afterwards \<open>arr[p]\<close> is the pivot (the element that was at \<open>high\<close>),
  every element at an index in \<open>[low, p)\<close> is \<open>\<le>\<close> the pivot, every element at an index
  in \<open>(p, high]\<close> is \<open>>\<close> the pivot, the subrange \<open>[low, high]\<close> is a permutation of its
  original contents, and the positions outside \<open>[low, high]\<close> are unchanged.
\<close>

theorem deterministic_partition_correct:
  assumes "arr < length st" and "0 \<le> low" and "low \<le> high"
    and "high < int (length (st ! arr))"
  shows "\<exists>ys p. deterministic_partition st arr low high = Inr (st[arr := ys], p) \<and>
     low \<le> p \<and> p \<le> high \<and> length ys = length (st ! arr) \<and>
     ys ! nat p = st ! arr ! nat high \<and>
     (\<forall>k. low \<le> k \<and> k < p \<longrightarrow> ys ! nat k \<le> st ! arr ! nat high) \<and>
     (\<forall>k. p < k \<and> k \<le> high \<longrightarrow> st ! arr ! nat high < ys ! nat k) \<and>
     mset (subrange ys low high) = mset (subrange (st ! arr) low high) \<and>
     (\<forall>k. 0 \<le> k \<and> (k < low \<or> high < k) \<longrightarrow> ys ! nat k = st ! arr ! nat k)"
proof -
  from deterministic_partition_spec[OF assms] obtain ys p where
    run: "deterministic_partition st arr low high = Inr (st[arr := ys], p)"
    and pb: "low \<le> p" "p \<le> high" and piv: "ys ! nat p = st ! arr ! nat high"
    and pa: "partitioned_at ys low p high" and fr: "same_outside (st ! arr) ys low high"
    by blast
  have "length ys = length (st ! arr)" using fr by (rule same_outside_length)
  moreover have "\<forall>k. low \<le> k \<and> k < p \<longrightarrow> ys ! nat k \<le> st ! arr ! nat high"
    using pa piv by (simp add: partitioned_at_def)
  moreover have "\<forall>k. p < k \<and> k \<le> high \<longrightarrow> st ! arr ! nat high < ys ! nat k"
    using pa piv by (simp add: partitioned_at_def)
  moreover have "mset (subrange ys low high) = mset (subrange (st ! arr) low high)"
    using fr assms(2,4) by (rule same_outside_subrange)
  moreover have "\<forall>k. 0 \<le> k \<and> (k < low \<or> high < k) \<longrightarrow> ys ! nat k = st ! arr ! nat k"
    using fr by (simp add: same_outside_def)
  ultimately show ?thesis using run pb piv by blast
qed

theorem deterministic_partition_correct_witness:
  "(1::nat) < length [[7], [9, 3, 8, 1, 5, 0 :: int]] \<and> (0::int) \<le> 1 \<and> (1::int) \<le> 4 \<and>
   (4::int) < int (length ([[7], [9, 3, 8, 1, 5, 0 :: int]] ! 1)) \<and>
   deterministic_partition [[7], [9, 3, 8, 1, 5, 0]] 1 1 4 = Inr ([[7], [9, 3, 1, 5, 8, 0]], 3) \<and>
   (\<exists>ys p. deterministic_partition [[7], [9, 3, 8, 1, 5, 0]] 1 1 4
        = Inr ([[7], [9, 3, 8, 1, 5, 0]][1 := ys], p) \<and>
      1 \<le> p \<and> p \<le> 4 \<and> ys ! nat p = 5 \<and>
      mset (subrange ys 1 4) = mset (subrange [9, 3, 8, 1, 5, 0] 1 4))"
proof -
  have h1: "(1::nat) < length [[7], [9, 3, 8, 1, 5, 0 :: int]]" by simp
  have h2: "(0::int) \<le> 1" by simp
  have h3: "(1::int) \<le> 4" by simp
  have h4: "(4::int) < int (length ([[7], [9, 3, 8, 1, 5, 0 :: int]] ! 1))" by simp
  have run: "deterministic_partition [[7], [9, 3, 8, 1, 5, 0]] 1 1 4
      = Inr ([[7], [9, 3, 1, 5, 8, 0]], 3)"
    by code_simp
  from deterministic_partition_correct[OF h1 h2 h3 h4] obtain ys p where
    "deterministic_partition [[7], [9, 3, 8, 1, 5, 0]] 1 1 4
        = Inr ([[7], [9, 3, 8, 1, 5, 0]][1 := ys], p)"
    "1 \<le> p" "p \<le> 4" "ys ! nat p = [[7], [9, 3, 8, 1, 5, 0]] ! 1 ! nat 4"
    "mset (subrange ys 1 4) = mset (subrange ([[7], [9, 3, 8, 1, 5, 0]] ! 1) 1 4)"
    by blast
  then have "\<exists>ys p. deterministic_partition [[7], [9, 3, 8, 1, 5, 0]] 1 1 4
        = Inr ([[7], [9, 3, 8, 1, 5, 0]][1 := ys], p) \<and>
      1 \<le> p \<and> p \<le> 4 \<and> ys ! nat p = 5 \<and>
      mset (subrange ys 1 4) = mset (subrange [9, 3, 8, 1, 5, 0] 1 4)"
    by (intro exI[of _ ys] exI[of _ p]) simp
  with h1 h2 h3 h4 run show ?thesis by blast
qed

text \<open>
  C7. Neither entry point mutates the list it is given: each copies its argument into a
  new list object, sorts that object in place and returns a reference to it. After every
  call that returns, the argument, and every other list that existed before the call, is
  unchanged, the store has grown by exactly one list, and the returned reference is that
  new one. A call returns whenever the call stack has room for more frames than the list
  has elements and \<open>random.randint\<close> nests together.
\<close>

theorem quick_sort_keeps_input:
  assumes "rng_in_range rng" and "arr < length st"
  shows "(\<forall>st' r. deterministic_quick_sort frames st arr = Inr (st', r) \<longrightarrow>
            st' ! arr = st ! arr \<and> take (length st) st' = st \<and>
            length st' = Suc (length st) \<and> r = length st \<and> r \<noteq> arr) \<and>
         (\<forall>st' r g'. randomized_quick_sort rng rd g frames st arr = Inr (st', r, g') \<longrightarrow>
            st' ! arr = st ! arr \<and> take (length st) st' = st \<and>
            length st' = Suc (length st) \<and> r = length st \<and> r \<noteq> arr) \<and>
         (length (st ! arr) + max rd 1 < frames \<longrightarrow>
            (\<exists>st' r. deterministic_quick_sort frames st arr = Inr (st', r)) \<and>
            (\<exists>st' r g'. randomized_quick_sort rng rd g frames st arr = Inr (st', r, g')))"
proof (intro conjI)
  show "\<forall>st' r. deterministic_quick_sort frames st arr = Inr (st', r) \<longrightarrow>
      st' ! arr = st ! arr \<and> take (length st) st' = st \<and>
      length st' = Suc (length st) \<and> r = length st \<and> r \<noteq> arr"
  proof (intro allI impI)
    fix st' r
    assume "deterministic_quick_sort frames st arr = Inr (st', r)"
    with deterministic_quick_sort_cases[OF assms(2), of frames]
    have "st' = st @ [sort (st ! arr)]" "r = length st" by auto
    then show "st' ! arr = st ! arr \<and> take (length st) st' = st \<and>
        length st' = Suc (length st) \<and> r = length st \<and> r \<noteq> arr"
      using assms(2) by (simp add: nth_append)
  qed
  show "\<forall>st' r g'. randomized_quick_sort rng rd g frames st arr = Inr (st', r, g') \<longrightarrow>
      st' ! arr = st ! arr \<and> take (length st) st' = st \<and>
      length st' = Suc (length st) \<and> r = length st \<and> r \<noteq> arr"
  proof (intro allI impI)
    fix st' r g'
    assume "randomized_quick_sort rng rd g frames st arr = Inr (st', r, g')"
    with randomized_quick_sort_cases[OF assms, of rd g frames]
    have "st' = st @ [sort (st ! arr)]" "r = length st" by auto
    then show "st' ! arr = st ! arr \<and> take (length st) st' = st \<and>
        length st' = Suc (length st) \<and> r = length st \<and> r \<noteq> arr"
      using assms(2) by (simp add: nth_append)
  qed
  show "length (st ! arr) + max rd 1 < frames \<longrightarrow>
      (\<exists>st' r. deterministic_quick_sort frames st arr = Inr (st', r)) \<and>
      (\<exists>st' r g'. randomized_quick_sort rng rd g frames st arr = Inr (st', r, g'))"
  proof (intro impI conjI)
    assume fr: "length (st ! arr) + max rd 1 < frames"
    then have "max 1 (length (st ! arr)) < frames" by simp
    with assms(2) have "deterministic_quick_sort frames st arr
        = Inr (st @ [sort (st ! arr)], length st)"
      by (rule deterministic_quick_sort_eq)
    then show "\<exists>st' r. deterministic_quick_sort frames st arr = Inr (st', r)" by blast
    from randomized_quick_sort_eq[OF assms fr, of g]
    show "\<exists>st' r g'. randomized_quick_sort rng rd g frames st arr = Inr (st', r, g')"
      by blast
  qed
qed

theorem quick_sort_keeps_input_witness:
  "rng_in_range counter_rng \<and> (1::nat) < length [[4, 4], [5, 4, 3, 2, 1 :: int]] \<and>
   length [5, 4, 3, 2, 1 :: int] + max 3 1 < (10::nat) \<and>
   deterministic_quick_sort 10 [[4, 4], [5, 4, 3, 2, 1]] 1
     = Inr ([[4, 4], [5, 4, 3, 2, 1], [1, 2, 3, 4, 5]], 2) \<and>
   randomized_quick_sort counter_rng 3 (7::nat) 10 [[4, 4], [5, 4, 3, 2, 1]] 1
     = Inr ([[4, 4], [5, 4, 3, 2, 1], [1, 2, 3, 4, 5]], 2, 10) \<and>
   [[4, 4], [5, 4, 3, 2, 1], [1, 2, 3, 4, 5 :: int]] ! 1 = [[4, 4], [5, 4, 3, 2, 1]] ! 1 \<and>
   take (length [[4, 4], [5, 4, 3, 2, 1 :: int]]) [[4, 4], [5, 4, 3, 2, 1], [1, 2, 3, 4, 5 :: int]]
     = [[4, 4], [5, 4, 3, 2, 1]] \<and>
   (2::nat) = length [[4, 4], [5, 4, 3, 2, 1 :: int]] \<and> (2::nat) \<noteq> 1"
proof -
  have len: "(1::nat) < length [[4, 4], [5, 4, 3, 2, 1 :: int]]" by simp
  have d: "deterministic_quick_sort 10 [[4, 4], [5, 4, 3, 2, 1]] 1
     = Inr ([[4, 4], [5, 4, 3, 2, 1], [1, 2, 3, 4, 5]], 2)" by code_simp
  have r: "randomized_quick_sort counter_rng 3 (7::nat) 10 [[4, 4], [5, 4, 3, 2, 1]] 1
     = Inr ([[4, 4], [5, 4, 3, 2, 1], [1, 2, 3, 4, 5]], 2, 10)" by code_simp
  note inst = quick_sort_keeps_input[OF counter_rng_in_range len,
      where frames = 10 and rd = 3 and g = 7]
  from inst[THEN conjunct1] d
  have "[[4, 4], [5, 4, 3, 2, 1], [1, 2, 3, 4, 5 :: int]] ! 1 = [[4, 4], [5, 4, 3, 2, 1]] ! 1 \<and>
      take (length [[4, 4], [5, 4, 3, 2, 1 :: int]])
          [[4, 4], [5, 4, 3, 2, 1], [1, 2, 3, 4, 5 :: int]]
        = [[4, 4], [5, 4, 3, 2, 1]] \<and>
      (2::nat) = length [[4, 4], [5, 4, 3, 2, 1 :: int]] \<and> (2::nat) \<noteq> 1"
    by blast
  with d r counter_rng_in_range len show ?thesis by simp
qed

text \<open>
  C9 (as amended). \<open>deterministic_quick_sort\<close> takes no generator at all. Two calls of
  \<open>randomized_quick_sort\<close> on the same list that both return, return the same store and
  list from whatever generator states they start, and a call returns from every state when
  the call stack has room for more frames than the list has elements and \<open>random.randint\<close>
  nests together. The randomized routine is not free of shared state, though: every
  \<open>randomized_partition\<close> draws from the process-wide generator and leaves it advanced by
  one draw, so which pivots a call draws, and with them how deep its helpers nest, depend
  on the calls that came before it.
\<close>

theorem randomized_result_independent_of_state:
  assumes "rng_in_range rng" and "arr < length st"
  shows "(\<forall>st1 r1 g1' st2 r2 g2'.
            randomized_quick_sort rng rd ga fa st arr = Inr (st1, r1, g1') \<and>
            randomized_quick_sort rng rd gb fb st arr = Inr (st2, r2, g2') \<longrightarrow>
            st1 = st2 \<and> r1 = r2) \<and>
         (length (st ! arr) + max rd 1 < frames \<longrightarrow>
            (\<exists>st' r g1' g2'.
               randomized_quick_sort rng rd ga frames st arr = Inr (st', r, g1') \<and>
               randomized_quick_sort rng rd gb frames st arr = Inr (st', r, g2'))) \<and>
         (\<forall>st0 a low high st1 p g'.
            randomized_partition rng rd g pframes st0 a low high = Inr (st1, p, g') \<longrightarrow>
            g' = snd (rng g low high))"
proof (intro conjI)
  show "\<forall>st1 r1 g1' st2 r2 g2'.
      randomized_quick_sort rng rd ga fa st arr = Inr (st1, r1, g1') \<and>
      randomized_quick_sort rng rd gb fb st arr = Inr (st2, r2, g2') \<longrightarrow>
      st1 = st2 \<and> r1 = r2"
    using randomized_quick_sort_cases[OF assms, of rd ga fa]
      randomized_quick_sort_cases[OF assms, of rd gb fb]
    by auto
  show "length (st ! arr) + max rd 1 < frames \<longrightarrow>
      (\<exists>st' r g1' g2'.
         randomized_quick_sort rng rd ga frames st arr = Inr (st', r, g1') \<and>
         randomized_quick_sort rng rd gb frames st arr = Inr (st', r, g2'))"
  proof
    assume fr: "length (st ! arr) + max rd 1 < frames"
    from randomized_quick_sort_eq[OF assms fr, of ga] randomized_quick_sort_eq[OF assms fr, of gb]
    show "\<exists>st' r g1' g2'.
        randomized_quick_sort rng rd ga frames st arr = Inr (st', r, g1') \<and>
        randomized_quick_sort rng rd gb frames st arr = Inr (st', r, g2')"
      by auto
  qed
  show "\<forall>st0 a low high st1 p g'.
      randomized_partition rng rd g pframes st0 a low high = Inr (st1, p, g') \<longrightarrow>
      g' = snd (rng g low high)"
    by (auto simp: randomized_partition_def randint_def
        split: nat.splits sum.splits if_splits prod.splits)
qed

theorem randomized_result_independent_of_state_witness:
  "rng_in_range counter_rng \<and> (0::nat) < length [[2, 1 :: int]] \<and>
   length [2, 1 :: int] + max 3 1 < (6::nat) \<and>
   randomized_quick_sort counter_rng 3 (0::nat) 6 [[2, 1]] 0 = Inr ([[2, 1], [1, 2]], 1, 1) \<and>
   (\<exists>g2'. randomized_quick_sort counter_rng 3 (1::nat) 6 [[2, 1]] 0
      = Inr ([[2, 1], [1, 2]], 1, g2')) \<and>
   randomized_partition counter_rng 3 (0::nat) 5 [[2, 1]] 0 0 1 = Inr ([[1, 2]], 1, 1) \<and>
   (1::nat) = snd (counter_rng (0::nat) 0 1)"
proof -
  have len: "(0::nat) < length [[2, 1 :: int]]" by simp
  have fr: "length ([[2, 1 :: int]] ! 0) + max 3 1 < (6::nat)" by simp
  have first: "randomized_quick_sort counter_rng 3 (0::nat) 6 [[2, 1]] 0
      = Inr ([[2, 1], [1, 2]], 1, 1)"
    by code_simp
  have run: "randomized_partition counter_rng 3 (0::nat) 5 [[2, 1]] 0 0 1 = Inr ([[1, 2]], 1, 1)"
    by code_simp
  note inst = randomized_result_independent_of_state[OF counter_rng_in_range len,
      where rd = 3 and ga = 0 and gb = 1 and fa = 6 and fb = 6 and frames = 6
        and g = 0 and pframes = 5]
  from inst fr have "\<exists>st' r g1' g2'.
      randomized_quick_sort counter_rng 3 (0::nat) 6 [[2, 1]] 0 = Inr (st', r, g1') \<and>
      randomized_quick_sort counter_rng 3 (1::nat) 6 [[2, 1]] 0 = Inr (st', r, g2')"
    by blast
  with first have a: "\<exists>g2'. randomized_quick_sort counter_rng 3 (1::nat) 6 [[2, 1]] 0
      = Inr ([[2, 1], [1, 2]], 1, g2')"
    by auto
  from inst have b: "\<forall>st0 a low high st1 p g'.
      randomized_partition counter_rng 3 (0::nat) 5 st0 a low high = Inr (st1, p, g') \<longrightarrow>
      g' = snd (counter_rng 0 low high)"
    by blast
  from b run have "(1::nat) = snd (counter_rng (0::nat) 0 1)" by blast
  with a first run counter_rng_in_range show ?thesis by simp
qed

text \<open>
  C9 as first stated (no shared generator state, behaviour and result independent of the
  calls before) fails. With the counter generator and the three frames of
  \<open>random.randint\<close>: the partition step on \<open>[2, 1]\<close> returns pivot index \<open>1\<close> from state \<open>0\<close>
  and pivot index \<open>0\<close> from state \<open>1\<close>. And with \<open>9\<close> frames left, sorting
  \<open>[7, 7, 7, 7, 7, 8]\<close> as the first call (state \<open>0\<close>) returns the sorted list, while the
  same call made after sorting \<open>[5, 3, 8, 1, 9, 2, 7]\<close>, which leaves the generator in state
  \<open>5\<close>, raises \<open>RecursionError\<close>.
\<close>

theorem randomized_depends_on_earlier_calls:
  "randomized_partition counter_rng 3 (0::nat) 5 [[2, 1]] 0 0 1 = Inr ([[1, 2]], 1, 1) \<and>
   randomized_partition counter_rng 3 (1::nat) 5 [[2, 1]] 0 0 1 = Inr ([[1, 2]], 0, 2) \<and>
   randomized_quick_sort counter_rng 3 (0::nat) 9 [[7, 7, 7, 7, 7, 8]] 0
     = Inr ([[7, 7, 7, 7, 7, 8], [7, 7, 7, 7, 7, 8]], 1, 4) \<and>
   randomized_quick_sort counter_rng 3 (0::nat) 9 [[5, 3, 8, 1, 9, 2, 7]] 0
     = Inr ([[5, 3, 8, 1, 9, 2, 7], [1, 2, 3, 5, 7, 8, 9]], 1, 5) \<and>
   randomized_quick_sort counter_rng 3 (5::nat) 9 [[7, 7, 7, 7, 7, 8]] 0 = Inl RecursionError"
proof -
  have a: "randomized_partition counter_rng 3 (0::nat) 5 [[2, 1]] 0 0 1 = Inr ([[1, 2]], 1, 1)"
    by code_simp
  have b: "randomized_partition counter_rng 3 (1::nat) 5 [[2, 1]] 0 0 1 = Inr ([[1, 2]], 0, 2)"
    by code_simp
  have c: "randomized_quick_sort counter_rng 3 (0::nat) 9 [[7, 7, 7, 7, 7, 8]] 0
     = Inr ([[7, 7, 7, 7, 7, 8], [7, 7, 7, 7, 7, 8]], 1, 4)"
    by code_simp
  have d: "randomized_quick_sort counter_rng 3 (0::nat) 9 [[5, 3, 8, 1, 9, 2, 7]] 0
     = Inr ([[5, 3, 8, 1, 9, 2, 7], [1, 2, 3, 5, 7, 8, 9]], 1, 5)"
    by code_simp
  have e: "randomized_quick_sort counter_rng 3 (5::nat) 9 [[7, 7, 7, 7, 7, 8]] 0
      = Inl RecursionError"
    by code_simp
  from a b c d e show ?thesis by (intro conjI)
qed

section \<open>The selection of one round\<close>

lemma is_best_first:
  assumes "is_best h unc pre best mx" and "mx < coverage h unc t"
  shows "is_best h unc (pre @ [t]) (Some t) (coverage h unc t)"
  unfolding is_best_def option.case
proof (intro conjI)
  from assms show "\<forall>u \<in> set (pre @ [t]). coverage h unc u \<le> coverage h unc t"
    by (auto simp: is_best_def)
  from assms show "0 < coverage h unc t" by simp
  show "coverage h unc t = coverage h unc t" ..
  from assms show "\<forall>u \<in> set (pre @ [t]). coverage h unc u = coverage h unc t \<longrightarrow> age (h t) \<le> age (h u)"
    by (auto simp: is_best_def)
  have "(pre @ [t]) ! length pre = t" by simp
  moreover have "\<forall>j < length pre. coverage h unc ((pre @ [t]) ! j) = coverage h unc t \<longrightarrow>
      age (h t) < age (h ((pre @ [t]) ! j))"
  proof (intro allI impI)
    fix j assume j: "j < length pre" and eq: "coverage h unc ((pre @ [t]) ! j) = coverage h unc t"
    from j have "pre ! j \<in> set pre" by simp
    with assms(1) have "coverage h unc (pre ! j) \<le> mx" by (simp add: is_best_def)
    with eq j assms(2) show "age (h t) < age (h ((pre @ [t]) ! j))" by (simp add: nth_append)
  qed
  ultimately show "\<exists>i < length (pre @ [t]). (pre @ [t]) ! i = t \<and>
      (\<forall>j < i. coverage h unc ((pre @ [t]) ! j) = coverage h unc t \<longrightarrow>
         age (h t) < age (h ((pre @ [t]) ! j)))"
    by (intro exI[of _ "length pre"]) simp
qed

lemma is_best_younger:
  assumes "is_best h unc pre (Some b) mx" and "coverage h unc t = mx" and "age (h t) < age (h b)"
  shows "is_best h unc (pre @ [t]) (Some t) mx"
  unfolding is_best_def option.case
proof (intro conjI)
  from assms show "\<forall>u \<in> set (pre @ [t]). coverage h unc u \<le> mx" by (auto simp: is_best_def)
  from assms show "0 < mx" by (simp add: is_best_def)
  from assms show "coverage h unc t = mx" by simp
  from assms show "\<forall>u \<in> set (pre @ [t]). coverage h unc u = mx \<longrightarrow> age (h t) \<le> age (h u)"
    by (fastforce simp: is_best_def)
  have "(pre @ [t]) ! length pre = t" by simp
  moreover have "\<forall>j < length pre. coverage h unc ((pre @ [t]) ! j) = mx \<longrightarrow>
      age (h t) < age (h ((pre @ [t]) ! j))"
  proof (intro allI impI)
    fix j assume j: "j < length pre" and eq: "coverage h unc ((pre @ [t]) ! j) = mx"
    from j have "pre ! j \<in> set pre" by simp
    moreover from eq j have "coverage h unc (pre ! j) = mx" by (simp add: nth_append)
    ultimately have "age (h b) \<le> age (h (pre ! j))" using assms(1) by (simp add: is_best_def)
    with assms(3) j show "age (h t) < age (h ((pre @ [t]) ! j))" by (simp add: nth_append)
  qed
  ultimately show "\<exists>i < length (pre @ [t]). (pre @ [t]) ! i = t \<and>
      (\<forall>j < i. coverage h unc ((pre @ [t]) ! j) = mx \<longrightarrow> age (h t) < age (h ((pre @ [t]) ! j)))"
    by (intro exI[of _ "length pre"]) simp
qed

lemma is_best_keep:
  assumes "is_best h unc pre best mx"
    and "coverage h unc t \<le> mx"
    and "\<And>b. best = Some b \<Longrightarrow> coverage h unc t = mx \<Longrightarrow> age (h b) \<le> age (h t)"
  shows "is_best h unc (pre @ [t]) best mx"
proof (cases best)
  case None
  with assms show ?thesis by (auto simp: is_best_def)
next
  case (Some b)
  from assms(1) Some obtain i where i: "i < length pre" "pre ! i = b"
    "\<forall>j < i. coverage h unc (pre ! j) = mx \<longrightarrow> age (h b) < age (h (pre ! j))"
    by (auto simp: is_best_def)
  have "\<exists>i < length (pre @ [t]). (pre @ [t]) ! i = b \<and>
      (\<forall>j < i. coverage h unc ((pre @ [t]) ! j) = mx \<longrightarrow> age (h b) < age (h ((pre @ [t]) ! j)))"
    using i by (intro exI[of _ i]) (simp add: nth_append)
  moreover have "\<forall>u \<in> set (pre @ [t]). coverage h unc u = mx \<longrightarrow> age (h b) \<le> age (h u)"
    using assms Some by (auto simp: is_best_def)
  moreover have "\<forall>u \<in> set (pre @ [t]). coverage h unc u \<le> mx"
    using assms by (auto simp: is_best_def)
  moreover have "0 < mx" "coverage h unc b = mx" using assms(1) Some by (auto simp: is_best_def)
  ultimately show ?thesis unfolding is_best_def Some option.case by blast
qed

lemma find_best_teacher_spec:
  assumes "is_best h unc pre best mx"
  shows "\<exists>best' mx'. find_best_teacher h unc ts best mx = Inr (best', mx') \<and>
     is_best h unc (pre @ ts) best' mx'"
  using assms
proof (induction ts arbitrary: pre best mx)
  case Nil
  then show ?case by simp
next
  case (Cons t ts)
  let ?c = "coverage h unc t"
  have cdef: "fcard (can_teach_subjects (h t) |\<inter>| unc) = ?c" by (simp add: coverage_def)
  consider (more) "mx < ?c" | (tie) "?c = mx" "0 < ?c" | (less) "?c \<le> mx" "\<not> (?c = mx \<and> 0 < ?c)"
    by linarith
  then show ?case
  proof cases
    case more
    have step: "find_best_teacher h unc (t # ts) best mx = find_best_teacher h unc ts (Some t) ?c"
      using more by (simp add: cdef)
    from Cons.IH[OF is_best_first[OF Cons.prems more]] show ?thesis
      unfolding step by simp
  next
    case tie
    with Cons.prems obtain b where b: "best = Some b"
      by (cases best) (auto simp: is_best_def)
    show ?thesis
    proof (cases "age (h t) < age (h b)")
      case True
      have step: "find_best_teacher h unc (t # ts) best mx = find_best_teacher h unc ts (Some t) mx"
        using tie b True by (simp add: cdef)
      from Cons.IH[OF is_best_younger[OF Cons.prems[unfolded b] tie(1) True]] show ?thesis
        unfolding step by simp
    next
      case False
      have step: "find_best_teacher h unc (t # ts) best mx = find_best_teacher h unc ts best mx"
        using tie b False by (simp add: cdef)
      have "is_best h unc (pre @ [t]) best mx"
        using Cons.prems tie b False by (intro is_best_keep) auto
      from Cons.IH[OF this] show ?thesis unfolding step by simp
    qed
  next
    case less
    have step: "find_best_teacher h unc (t # ts) best mx = find_best_teacher h unc ts best mx"
      using less by (auto simp: cdef)
    have "is_best h unc (pre @ [t]) best mx"
    proof (rule is_best_keep[OF Cons.prems less(1)])
      fix b assume "best = Some b" "?c = mx"
      with Cons.prems less show "age (h b) \<le> age (h t)" by (auto simp: is_best_def)
    qed
    from Cons.IH[OF this] show ?thesis unfolding step by simp
  qed
qed

lemma find_best_teacher_round:
  "\<exists>best mx. find_best_teacher h unc available None 0 = Inr (best, mx) \<and>
     is_best h unc available best mx"
proof -
  have "is_best h unc [] None 0" by (simp add: is_best_def)
  from find_best_teacher_spec[OF this, of available] show ?thesis by simp
qed

section \<open>The invariant of the greedy loop\<close>

lemma covered_by_append: "covered_by h (xs @ ys) = covered_by h xs |\<union>| covered_by h ys"
  by (induction xs) auto

lemma covered_by_cong: "(\<And>t. t \<in> set xs \<Longrightarrow> h1 t = h2 t) \<Longrightarrow> covered_by h1 xs = covered_by h2 xs"
  by (induction xs) auto

lemma covered_by_mem:
  "s |\<in>| covered_by h xs \<longleftrightarrow> (\<exists>k < length xs. s |\<in>| assigned_subjects (h (xs ! k)))"
proof (induction xs)
  case Nil
  then show ?case by simp
next
  case (Cons t ts)
  show ?case
  proof
    assume "s |\<in>| covered_by h (t # ts)"
    then consider "s |\<in>| assigned_subjects (h t)" | "s |\<in>| covered_by h ts" by auto
    then show "\<exists>k < length (t # ts). s |\<in>| assigned_subjects (h ((t # ts) ! k))"
    proof cases
      case 1
      then show ?thesis by (intro exI[of _ 0]) simp
    next
      case 2
      with Cons.IH obtain k where "k < length ts" "s |\<in>| assigned_subjects (h (ts ! k))" by blast
      then show ?thesis by (intro exI[of _ "Suc k"]) simp
    qed
  next
    assume "\<exists>k < length (t # ts). s |\<in>| assigned_subjects (h ((t # ts) ! k))"
    then obtain k where k: "k < length (t # ts)" "s |\<in>| assigned_subjects (h ((t # ts) ! k))"
      by blast
    show "s |\<in>| covered_by h (t # ts)"
    proof (cases k)
      case 0
      with k show ?thesis by simp
    next
      case (Suc m)
      with k have "m < length ts" "s |\<in>| assigned_subjects (h (ts ! m))" by simp_all
      with Cons.IH show ?thesis by auto
    qed
  qed
qed

lemma coverage_pos: "0 < coverage h unc t \<longleftrightarrow> can_teach_subjects (h t) |\<inter>| unc \<noteq> {||}"
  unfolding coverage_def by (metis fcard_fempty fcard_0_eq neq0_conv)

lemma schedule_inv_init: "schedule_inv subjects h subjects []"
  by (simp add: schedule_inv_def)

lemma schedule_inv_step:
  assumes inv: "schedule_inv subjects h unc sel" and pos: "0 < coverage h unc b"
  defines "sub \<equiv> can_teach_subjects (h b) |\<inter>| unc"
  defines "h1 \<equiv> h(b := (h b)\<lparr>assigned_subjects := sub\<rparr>)"
  shows "schedule_inv subjects h1 (unc |-| sub) (sel @ [b])"
proof -
  from inv have dist: "distinct sel" and unc: "unc = subjects |-| covered_by h sel"
    and seld: "\<forall>t \<in> set sel. can_teach_subjects (h t) |\<inter>| unc = {||}"
    and rounds: "\<forall>k < length sel. assigned_subjects (h (sel ! k)) =
        can_teach_subjects (h (sel ! k)) |\<inter>| (subjects |-| covered_by h (take k sel))"
    unfolding schedule_inv_def by blast+
  have ne: "sub \<noteq> {||}" using pos by (simp add: coverage_pos sub_def)
  have fresh: "b \<notin> set sel" using seld ne by (auto simp: sub_def)
  have same: "h1 t = h t" if "t \<in> set sel" for t using that fresh by (auto simp: h1_def)
  have cap: "can_teach_subjects (h1 t) = can_teach_subjects (h t)" for t by (simp add: h1_def)
  have asg: "assigned_subjects (h1 b) = sub" by (simp add: h1_def)
  have cov: "covered_by h1 xs = covered_by h xs" if "set xs \<subseteq> set sel" for xs
    using that same by (intro covered_by_cong) auto
  show ?thesis
    unfolding schedule_inv_def
  proof (intro conjI)
    show "distinct (sel @ [b])" using dist fresh by simp
    show "unc |-| sub = subjects |-| covered_by h1 (sel @ [b])"
      using unc asg cov[of sel] by (auto simp: covered_by_append)
    show "\<forall>t \<in> set (sel @ [b]). can_teach_subjects (h1 t) |\<inter>| (unc |-| sub) = {||}"
      using seld by (auto simp: cap sub_def)
    show "\<forall>k < length (sel @ [b]). assigned_subjects (h1 ((sel @ [b]) ! k)) =
        can_teach_subjects (h1 ((sel @ [b]) ! k)) |\<inter>|
          (subjects |-| covered_by h1 (take k (sel @ [b])))"
    proof (intro allI impI)
      fix k assume "k < length (sel @ [b])"
      then consider "k < length sel" | "k = length sel" by fastforce
      then show "assigned_subjects (h1 ((sel @ [b]) ! k)) =
        can_teach_subjects (h1 ((sel @ [b]) ! k)) |\<inter>|
          (subjects |-| covered_by h1 (take k (sel @ [b])))"
      proof cases
        case 1
        then have "sel ! k \<in> set sel" by simp
        then have "h1 (sel ! k) = h (sel ! k)" by (rule same)
        moreover have "covered_by h1 (take k sel) = covered_by h (take k sel)"
          by (intro cov) (rule set_take_subset)
        ultimately show ?thesis using 1 rounds by (simp add: nth_append)
      next
        case 2
        then show ?thesis using asg unc cov[of sel] by (simp add: cap sub_def)
      qed
    qed
  qed
qed

lemma schedule_loop_spec:
  assumes "schedule_inv subjects h unc sel"
  shows "\<exists>h' r. schedule_loop h unc avail sel = Inr (h', r) \<and>
     (\<forall>sel'. r = Some sel' \<longrightarrow>
        schedule_inv subjects h' {||} sel' \<and> set sel' \<subseteq> set sel \<union> set avail) \<and>
     (r = None \<longrightarrow>
        (\<exists>residual partial. residual \<noteq> {||} \<and> schedule_inv subjects h' residual partial \<and>
           set partial \<subseteq> set sel \<union> set avail \<and>
           (\<forall>t \<in> set avail \<union> set sel. can_teach_subjects (h' t) |\<inter>| residual = {||}))) \<and>
     (\<forall>t. t \<notin> set avail \<longrightarrow> h' t = h t) \<and>
     (\<forall>t. (h' t)\<lparr>assigned_subjects := {||}\<rparr> = (h t)\<lparr>assigned_subjects := {||}\<rparr>)"
  using assms
proof (induction "length avail" arbitrary: h unc avail sel rule: less_induct)
  case less
  note unf = schedule_loop.simps[of h unc avail sel]
  show ?case
  proof (cases "unc = {||}")
    case True
    then have "schedule_loop h unc avail sel = Inr (h, Some sel)" by (subst unf) simp
    with less.prems True show ?thesis by auto
  next
    case False
    from find_best_teacher_round[of h unc avail] obtain best mx where
      fb: "find_best_teacher h unc avail None 0 = Inr (best, mx)"
      and ib: "is_best h unc avail best mx" by blast
    show ?thesis
    proof (cases best)
      case None
      then have run: "schedule_loop h unc avail sel = Inr (h, None)"
        using False fb by (simp add: unf)
      from ib None have "\<forall>t \<in> set avail. coverage h unc t = 0" by (auto simp: is_best_def)
      then have "\<forall>t \<in> set avail. can_teach_subjects (h t) |\<inter>| unc = {||}"
        using coverage_pos[of h unc] by (metis less_numeral_extra(3))
      moreover from less.prems have "\<forall>t \<in> set sel. can_teach_subjects (h t) |\<inter>| unc = {||}"
        unfolding schedule_inv_def by blast
      ultimately have "unc \<noteq> {||} \<and> schedule_inv subjects h unc sel \<and>
          set sel \<subseteq> set sel \<union> set avail \<and>
          (\<forall>t \<in> set avail \<union> set sel. can_teach_subjects (h t) |\<inter>| unc = {||})"
        using False less.prems by auto
      then have "\<exists>residual partial. residual \<noteq> {||} \<and> schedule_inv subjects h residual partial \<and>
          set partial \<subseteq> set sel \<union> set avail \<and>
          (\<forall>t \<in> set avail \<union> set sel. can_teach_subjects (h t) |\<inter>| residual = {||})"
        by blast
      with run show ?thesis by simp
    next
      case (Some b)
      from ib Some have mx: "0 < mx" and cb: "coverage h unc b = mx" and mem: "b \<in> set avail"
        by (auto simp: is_best_def)
      let ?sub = "can_teach_subjects (h b) |\<inter>| unc"
      let ?h1 = "h(b := (h b)\<lparr>assigned_subjects := ?sub\<rparr>)"
      let ?avail1 = "remove1 b avail"
      have rm: "list_remove avail b = Inr ?avail1" using mem by (simp add: list_remove_def)
      have step: "schedule_loop h unc avail sel
          = schedule_loop ?h1 (unc |-| ?sub) ?avail1 (sel @ [b])"
        using False fb Some mx rm by (simp add: unf Let_def)
      have "0 < length avail" using mem by (rule length_pos_if_in_set)
      then have shorter: "length ?avail1 < length avail"
        using mem by (simp add: length_remove1)
      have inv1: "schedule_inv subjects ?h1 (unc |-| ?sub) (sel @ [b])"
        using less.prems mx cb by (intro schedule_inv_step) simp_all
      from less.hyps[OF shorter inv1] obtain h' r where
        run: "schedule_loop ?h1 (unc |-| ?sub) ?avail1 (sel @ [b]) = Inr (h', r)"
        and post: "\<forall>sel'. r = Some sel' \<longrightarrow>
          schedule_inv subjects h' {||} sel' \<and> set sel' \<subseteq> set (sel @ [b]) \<union> set ?avail1"
        and fail: "r = None \<longrightarrow>
          (\<exists>residual partial. residual \<noteq> {||} \<and> schedule_inv subjects h' residual partial \<and>
             set partial \<subseteq> set (sel @ [b]) \<union> set ?avail1 \<and>
             (\<forall>t \<in> set ?avail1 \<union> set (sel @ [b]).
                can_teach_subjects (h' t) |\<inter>| residual = {||}))"
        and fr1: "\<forall>t. t \<notin> set ?avail1 \<longrightarrow> h' t = ?h1 t"
        and fr2: "\<forall>t. (h' t)\<lparr>assigned_subjects := {||}\<rparr> = (?h1 t)\<lparr>assigned_subjects := {||}\<rparr>"
        by blast
      have sub1: "set (sel @ [b]) \<union> set ?avail1 \<subseteq> set sel \<union> set avail"
        using mem set_remove1_subset[of b avail] by auto
      have sub2: "set avail \<union> set sel \<subseteq> set ?avail1 \<union> set (sel @ [b])"
      proof
        fix t assume "t \<in> set avail \<union> set sel"
        then show "t \<in> set ?avail1 \<union> set (sel @ [b])"
          by (cases "t = b") auto
      qed
      have p1: "\<forall>sel'. r = Some sel' \<longrightarrow>
          schedule_inv subjects h' {||} sel' \<and> set sel' \<subseteq> set sel \<union> set avail"
        using post sub1 by blast
      have p2: "r = None \<longrightarrow>
          (\<exists>residual partial. residual \<noteq> {||} \<and> schedule_inv subjects h' residual partial \<and>
             set partial \<subseteq> set sel \<union> set avail \<and>
             (\<forall>t \<in> set avail \<union> set sel. can_teach_subjects (h' t) |\<inter>| residual = {||}))"
      proof
        assume "r = None"
        with fail obtain residual partial where
          f: "residual \<noteq> {||}" "schedule_inv subjects h' residual partial"
            "set partial \<subseteq> set (sel @ [b]) \<union> set ?avail1"
            "\<forall>t \<in> set ?avail1 \<union> set (sel @ [b]). can_teach_subjects (h' t) |\<inter>| residual = {||}"
          by blast
        from f(3) sub1 have "set partial \<subseteq> set sel \<union> set avail" by blast
        moreover from f(4) sub2
        have "\<forall>t \<in> set avail \<union> set sel. can_teach_subjects (h' t) |\<inter>| residual = {||}"
          by blast
        ultimately show "\<exists>residual partial. residual \<noteq> {||} \<and>
            schedule_inv subjects h' residual partial \<and> set partial \<subseteq> set sel \<union> set avail \<and>
            (\<forall>t \<in> set avail \<union> set sel. can_teach_subjects (h' t) |\<inter>| residual = {||})"
          using f(1,2) by blast
      qed
      have p3: "\<forall>t. t \<notin> set avail \<longrightarrow> h' t = h t"
      proof (intro allI impI)
        fix t assume t: "t \<notin> set avail"
        then have "t \<notin> set ?avail1" using set_remove1_subset[of b avail] by auto
        with fr1 have "h' t = ?h1 t" by simp
        moreover from t mem have "t \<noteq> b" by auto
        ultimately show "h' t = h t" by simp
      qed
      have p4: "\<forall>t. (h' t)\<lparr>assigned_subjects := {||}\<rparr> = (h t)\<lparr>assigned_subjects := {||}\<rparr>"
      proof
        fix t
        have "(?h1 t)\<lparr>assigned_subjects := {||}\<rparr> = (h t)\<lparr>assigned_subjects := {||}\<rparr>" by simp
        with fr2 show "(h' t)\<lparr>assigned_subjects := {||}\<rparr> = (h t)\<lparr>assigned_subjects := {||}\<rparr>"
          by simp
      qed
      from run step p1 p2 p3 p4 show ?thesis by simp
    qed
  qed
qed

section \<open>Properties of the scheduler\<close>

lemma reset_assigned_out: "t \<notin> set ts \<Longrightarrow> reset_assigned h ts t = h t"
  by (induction ts arbitrary: h) auto

lemma reset_assigned_in:
  "t \<in> set ts \<Longrightarrow> reset_assigned h ts t = (h t)\<lparr>assigned_subjects := {||}\<rparr>"
proof (induction ts arbitrary: h)
  case Nil
  then show ?case by simp
next
  case (Cons u ts)
  let ?h1 = "h(u := (h u)\<lparr>assigned_subjects := {||}\<rparr>)"
  show ?case
  proof (cases "t \<in> set ts")
    case True
    have "reset_assigned h (u # ts) t = reset_assigned ?h1 ts t" by simp
    also have "\<dots> = (?h1 t)\<lparr>assigned_subjects := {||}\<rparr>" by (rule Cons.IH[OF True])
    also have "\<dots> = (h t)\<lparr>assigned_subjects := {||}\<rparr>" by simp
    finally show ?thesis .
  next
    case False
    with Cons.prems have "t = u" by simp
    have "reset_assigned h (u # ts) t = reset_assigned ?h1 ts t" by simp
    also have "\<dots> = ?h1 t" using False by (rule reset_assigned_out)
    also have "\<dots> = (h t)\<lparr>assigned_subjects := {||}\<rparr>" using \<open>t = u\<close> by simp
    finally show ?thesis .
  qed
qed

lemma create_schedule_spec:
  "\<exists>h' r. create_schedule h subjects teachers = Inr (h', r) \<and>
     (\<forall>sel. r = Some sel \<longrightarrow> schedule_inv subjects h' {||} sel \<and> set sel \<subseteq> set teachers) \<and>
     (r = None \<longrightarrow>
        (\<exists>residual partial. residual \<noteq> {||} \<and> schedule_inv subjects h' residual partial \<and>
           set partial \<subseteq> set teachers \<and>
           (\<forall>t \<in> set teachers. can_teach_subjects (h' t) |\<inter>| residual = {||}))) \<and>
     (\<forall>t. t \<notin> set teachers \<longrightarrow> h' t = h t) \<and>
     (\<forall>t. (h' t)\<lparr>assigned_subjects := {||}\<rparr> = (h t)\<lparr>assigned_subjects := {||}\<rparr>)"
proof -
  let ?h0 = "reset_assigned h teachers"
  have r1: "\<forall>t. t \<notin> set teachers \<longrightarrow> ?h0 t = h t" by (simp add: reset_assigned_out)
  have r2: "\<forall>t. (?h0 t)\<lparr>assigned_subjects := {||}\<rparr> = (h t)\<lparr>assigned_subjects := {||}\<rparr>"
  proof
    fix t
    show "(?h0 t)\<lparr>assigned_subjects := {||}\<rparr> = (h t)\<lparr>assigned_subjects := {||}\<rparr>"
      by (cases "t \<in> set teachers") (simp_all add: reset_assigned_in reset_assigned_out)
  qed
  from schedule_loop_spec[of subjects ?h0 subjects "[]" teachers, OF schedule_inv_init]
  obtain h' r where run: "schedule_loop ?h0 subjects teachers [] = Inr (h', r)"
    and p1: "\<forall>sel'. r = Some sel' \<longrightarrow>
        schedule_inv subjects h' {||} sel' \<and> set sel' \<subseteq> set [] \<union> set teachers"
    and p2: "r = None \<longrightarrow>
        (\<exists>residual partial. residual \<noteq> {||} \<and> schedule_inv subjects h' residual partial \<and>
           set partial \<subseteq> set [] \<union> set teachers \<and>
           (\<forall>t \<in> set teachers \<union> set []. can_teach_subjects (h' t) |\<inter>| residual = {||}))"
    and p3: "\<forall>t. t \<notin> set teachers \<longrightarrow> h' t = ?h0 t"
    and p4: "\<forall>t. (h' t)\<lparr>assigned_subjects := {||}\<rparr> = (?h0 t)\<lparr>assigned_subjects := {||}\<rparr>"
    by blast
  have "create_schedule h subjects teachers = Inr (h', r)"
    using run by (simp add: create_schedule_def)
  moreover have "\<forall>t. t \<notin> set teachers \<longrightarrow> h' t = h t" using p3 r1 by simp
  moreover have "\<forall>t. (h' t)\<lparr>assigned_subjects := {||}\<rparr> = (h t)\<lparr>assigned_subjects := {||}\<rparr>"
    using p4 r2 by simp
  ultimately show ?thesis using p1 p2 by simp
qed

lemma schedule_inv_subset:
  assumes "schedule_inv subjects h unc sel" and "k < length sel"
  shows "assigned_subjects (h (sel ! k)) |\<subseteq>| can_teach_subjects (h (sel ! k))"
    and "assigned_subjects (h (sel ! k)) |\<subseteq>| subjects"
    and "assigned_subjects (h (sel ! k)) |\<inter>| covered_by h (take k sel) = {||}"
proof -
  from assms have eq: "assigned_subjects (h (sel ! k)) =
      can_teach_subjects (h (sel ! k)) |\<inter>| (subjects |-| covered_by h (take k sel))"
    unfolding schedule_inv_def by blast
  show "assigned_subjects (h (sel ! k)) |\<subseteq>| can_teach_subjects (h (sel ! k))"
    by (subst eq) auto
  show "assigned_subjects (h (sel ! k)) |\<subseteq>| subjects"
    by (subst eq) auto
  show "assigned_subjects (h (sel ! k)) |\<inter>| covered_by h (take k sel) = {||}"
    by (subst eq) auto
qed

lemma schedule_inv_disjoint:
  assumes inv: "schedule_inv subjects h unc sel" and "i < j" and "j < length sel"
  shows "assigned_subjects (h (sel ! i)) |\<inter>| assigned_subjects (h (sel ! j)) = {||}"
proof -
  have "assigned_subjects (h (sel ! i)) |\<subseteq>| covered_by h (take j sel)"
  proof
    fix s assume "s |\<in>| assigned_subjects (h (sel ! i))"
    moreover have "i < length (take j sel)" "take j sel ! i = sel ! i" using assms by simp_all
    ultimately show "s |\<in>| covered_by h (take j sel)"
      unfolding covered_by_mem by (intro exI[of _ i]) simp
  qed
  with schedule_inv_subset(3)[OF inv assms(3)] show ?thesis by auto
qed

lemma schedule_inv_covered:
  assumes "schedule_inv subjects h unc sel"
  shows "covered_by h sel |\<subseteq>| subjects"
proof
  fix s assume "s |\<in>| covered_by h sel"
  then obtain k where k: "k < length sel" "s |\<in>| assigned_subjects (h (sel ! k))"
    unfolding covered_by_mem by blast
  with schedule_inv_subset(2)[OF assms k(1)] show "s |\<in>| subjects" by auto
qed

text \<open>
  C2. When \<open>create_schedule\<close> returns a list of selected teachers, no teacher occurs in it
  twice and all of them come from the pool; the assignment set of the \<open>k\<close>-th selected
  teacher is its capability set intersected with the subjects the first \<open>k\<close> selections
  left uncovered (so it is a subset of the capability set); the assignment sets of two
  different selected teachers are disjoint; and the union of the assignment sets is the
  universe.
\<close>

theorem create_schedule_partitions_universe:
  assumes "create_schedule h subjects teachers = Inr (h', Some selected)"
  shows "distinct selected \<and> set selected \<subseteq> set teachers \<and>
     (\<forall>k < length selected.
        assigned_subjects (h' (selected ! k)) =
          can_teach_subjects (h' (selected ! k)) |\<inter>|
            (subjects |-| covered_by h' (take k selected)) \<and>
        assigned_subjects (h' (selected ! k)) |\<subseteq>| can_teach_subjects (h' (selected ! k))) \<and>
     (\<forall>i < length selected. \<forall>j < length selected. i \<noteq> j \<longrightarrow>
        assigned_subjects (h' (selected ! i)) |\<inter>| assigned_subjects (h' (selected ! j)) = {||}) \<and>
     covered_by h' selected = subjects"
proof -
  from create_schedule_spec[of h subjects teachers] assms
  have inv: "schedule_inv subjects h' {||} selected" and pool: "set selected \<subseteq> set teachers"
    by auto
  have d: "distinct selected" using inv unfolding schedule_inv_def by blast
  have rounds: "\<forall>k < length selected.
        assigned_subjects (h' (selected ! k)) =
          can_teach_subjects (h' (selected ! k)) |\<inter>|
            (subjects |-| covered_by h' (take k selected)) \<and>
        assigned_subjects (h' (selected ! k)) |\<subseteq>| can_teach_subjects (h' (selected ! k))"
    using inv schedule_inv_subset(1)[OF inv] unfolding schedule_inv_def by blast
  have disj: "\<forall>i < length selected. \<forall>j < length selected. i \<noteq> j \<longrightarrow>
        assigned_subjects (h' (selected ! i)) |\<inter>| assigned_subjects (h' (selected ! j)) = {||}"
  proof (intro allI impI)
    fix i j assume ij: "i < length selected" "j < length selected" "i \<noteq> j"
    then consider "i < j" | "j < i" by linarith
    then show "assigned_subjects (h' (selected ! i)) |\<inter>| assigned_subjects (h' (selected ! j)) = {||}"
    proof cases
      case 1
      with ij show ?thesis by (intro schedule_inv_disjoint[OF inv])
    next
      case 2
      with ij have "assigned_subjects (h' (selected ! j)) |\<inter>| assigned_subjects (h' (selected ! i)) = {||}"
        by (intro schedule_inv_disjoint[OF inv])
      then show ?thesis by auto
    qed
  qed
  have "{||} = subjects |-| covered_by h' selected" using inv unfolding schedule_inv_def by blast
  then have "subjects |\<subseteq>| covered_by h' selected" by auto
  with schedule_inv_covered[OF inv] have cov: "covered_by h' selected = subjects" by auto
  from d pool rounds disj cov show ?thesis by blast
qed

theorem create_schedule_partitions_universe_witness:
  "\<exists>h'. create_schedule overlap_heap {|''A'', ''B'', ''C''|} [0, 1] = Inr (h', Some [1, 0]) \<and>
     distinct [1::nat, 0] \<and>
     assigned_subjects (h' 1) |\<inter>| assigned_subjects (h' 0) = {||} \<and>
     covered_by h' [1, 0] = {|''A'', ''B'', ''C''|}"
proof -
  have sel: "map_sum id snd (create_schedule overlap_heap {|''A'', ''B'', ''C''|} [0, 1])
      = Inr (Some [1, 0])"
    by code_simp
  from create_schedule_spec[of overlap_heap "{|''A'', ''B'', ''C''|}" "[0, 1]"] obtain h' r where
    "create_schedule overlap_heap {|''A'', ''B'', ''C''|} [0, 1] = Inr (h', r)" by blast
  with sel have run: "create_schedule overlap_heap {|''A'', ''B'', ''C''|} [0, 1]
      = Inr (h', Some [1, 0])" by simp
  from create_schedule_partitions_universe[OF run]
  have "distinct [1::nat, 0]"
    and "\<forall>i < length [1::nat, 0]. \<forall>j < length [1::nat, 0]. i \<noteq> j \<longrightarrow>
        assigned_subjects (h' ([1, 0] ! i)) |\<inter>| assigned_subjects (h' ([1, 0] ! j)) = {||}"
    and cov: "covered_by h' [1, 0] = {|''A'', ''B'', ''C''|}"
    by blast+
  from this(2)[rule_format, of 0 1]
  have "assigned_subjects (h' ([1, 0] ! 0)) |\<inter>| assigned_subjects (h' ([1, 0] ! 1)) = {||}"
    by simp
  then have "assigned_subjects (h' 1) |\<inter>| assigned_subjects (h' 0) = {||}" by simp
  with run cov show ?thesis by (intro exI[of _ h']) simp
qed

text \<open>
  C10. With an empty universe the loop body never runs: \<open>create_schedule\<close> selects nobody
  and returns the empty list, which is not \<open>None\<close>; the heap it leaves is the heap after the
  reset, in which every pool teacher has an empty assignment set. The empty list is falsy,
  so \<open>print_detailed_schedule\<close>, which tests \<open>not schedule\<close>, reports this success exactly
  as it reports the failure value \<open>None\<close>; only a comparison with \<open>None\<close> tells them apart.
\<close>

theorem create_schedule_empty_universe:
  "create_schedule h {||} teachers = Inr (reset_assigned h teachers, Some []) \<and>
   (\<forall>t \<in> set teachers. assigned_subjects (reset_assigned h teachers t) = {||}) \<and>
   Some [] \<noteq> (None :: tref list option) \<and>
   print_detailed_schedule (Some []) = ScheduleMissing \<and>
   print_detailed_schedule None = ScheduleMissing"
proof -
  have "schedule_loop (reset_assigned h teachers) {||} teachers []
      = Inr (reset_assigned h teachers, Some [])"
    by (simp add: schedule_loop.simps[of _ "{||}"])
  then have "create_schedule h {||} teachers = Inr (reset_assigned h teachers, Some [])"
    by (simp add: create_schedule_def)
  moreover have "\<forall>t \<in> set teachers. assigned_subjects (reset_assigned h teachers t) = {||}"
    by (simp add: reset_assigned_in)
  ultimately show ?thesis by simp
qed

theorem create_schedule_empty_universe_witness:
  "create_schedule (overlap_heap(1 := (overlap_heap 1)\<lparr>assigned_subjects := {|''B''|}\<rparr>)) {||} [0, 1]
     = Inr (reset_assigned (overlap_heap(1 := (overlap_heap 1)\<lparr>assigned_subjects := {|''B''|}\<rparr>)) [0, 1],
            Some []) \<and>
   (1::nat) \<in> set [0, 1] \<and>
   assigned_subjects
     (reset_assigned (overlap_heap(1 := (overlap_heap 1)\<lparr>assigned_subjects := {|''B''|}\<rparr>)) [0, 1] 1)
     = {||} \<and>
   print_detailed_schedule (Some []) = print_detailed_schedule None"
proof -
  let ?h = "overlap_heap(1 := (overlap_heap 1)\<lparr>assigned_subjects := {|''B''|}\<rparr>)"
  from create_schedule_empty_universe[of ?h "[0, 1]"]
  have run: "create_schedule ?h {||} [0, 1] = Inr (reset_assigned ?h [0, 1], Some [])"
    and empty: "\<forall>t \<in> set [0, 1]. assigned_subjects (reset_assigned ?h [0, 1] t) = {||}"
    and same: "print_detailed_schedule (Some []) = ScheduleMissing"
      "print_detailed_schedule None = ScheduleMissing"
    by blast+
  have mem: "(1::nat) \<in> set [0, 1]" by simp
  with empty have "assigned_subjects (reset_assigned ?h [0, 1] 1) = {||}" by blast
  with run mem same show ?thesis by simp
qed

text \<open>
  C4 (as amended). When in some round no available teacher covers an uncovered subject,
  the loop ends in that round and \<open>create_schedule\<close> returns \<open>None\<close>, which differs from
  every success value (a list) but carries no data: the residual set is only printed.
  Whenever \<open>create_schedule\<close> returns \<open>None\<close>, a non-empty residual set of subjects is left
  that no pool teacher can teach. The list of selections is dropped, but the heap is
  returned as the earlier rounds left it: the teachers selected before the failing round
  keep the assignment sets they were given.
\<close>

theorem create_schedule_uncoverable:
  "(uncovered \<noteq> {||} \<and> (\<forall>t \<in> set available. coverage h0 uncovered t = 0) \<longrightarrow>
      schedule_loop h0 uncovered available selected = Inr (h0, None)) \<and>
   (create_schedule h subjects teachers = Inr (h', None) \<longrightarrow>
      (\<exists>residual partial. residual \<noteq> {||} \<and>
         residual = subjects |-| covered_by h' partial \<and>
         (\<forall>t \<in> set teachers. can_teach_subjects (h' t) |\<inter>| residual = {||}) \<and>
         distinct partial \<and> set partial \<subseteq> set teachers \<and>
         (\<forall>k < length partial.
            assigned_subjects (h' (partial ! k)) =
              can_teach_subjects (h' (partial ! k)) |\<inter>|
                (subjects |-| covered_by h' (take k partial)))))"
proof (intro conjI impI)
  assume a: "uncovered \<noteq> {||} \<and> (\<forall>t \<in> set available. coverage h0 uncovered t = 0)"
  from find_best_teacher_round[of h0 uncovered available] obtain best mx where
    fb: "find_best_teacher h0 uncovered available None 0 = Inr (best, mx)"
    and ib: "is_best h0 uncovered available best mx" by blast
  have "best = None"
  proof (cases best)
    case (Some b)
    with ib have "0 < coverage h0 uncovered b" "b \<in> set available" by (auto simp: is_best_def)
    with a show ?thesis by auto
  qed simp
  with a fb show "schedule_loop h0 uncovered available selected = Inr (h0, None)"
    by (simp add: schedule_loop.simps[of h0 uncovered available selected])
next
  assume run: "create_schedule h subjects teachers = Inr (h', None)"
  from create_schedule_spec[of h subjects teachers] obtain h1 r where
    r1: "create_schedule h subjects teachers = Inr (h1, r)"
    and r2: "r = None \<longrightarrow>
        (\<exists>residual partial. residual \<noteq> {||} \<and> schedule_inv subjects h1 residual partial \<and>
           set partial \<subseteq> set teachers \<and>
           (\<forall>t \<in> set teachers. can_teach_subjects (h1 t) |\<inter>| residual = {||}))"
    by blast
  from r1 run have "h1 = h'" "r = None" by simp_all
  with r2 obtain residual partial where
    f1: "residual \<noteq> {||}" and inv: "schedule_inv subjects h' residual partial"
    and f2: "set partial \<subseteq> set teachers"
    and f3: "\<forall>t \<in> set teachers. can_teach_subjects (h' t) |\<inter>| residual = {||}"
    by blast
  from inv have f4: "residual = subjects |-| covered_by h' partial"
    unfolding schedule_inv_def by (elim conjE)
  from inv have f5: "distinct partial"
    unfolding schedule_inv_def by (elim conjE)
  from inv have f6: "\<forall>k < length partial.
        assigned_subjects (h' (partial ! k)) =
          can_teach_subjects (h' (partial ! k)) |\<inter>|
            (subjects |-| covered_by h' (take k partial))"
    unfolding schedule_inv_def by (elim conjE)
  show "\<exists>residual partial. residual \<noteq> {||} \<and>
         residual = subjects |-| covered_by h' partial \<and>
         (\<forall>t \<in> set teachers. can_teach_subjects (h' t) |\<inter>| residual = {||}) \<and>
         distinct partial \<and> set partial \<subseteq> set teachers \<and>
         (\<forall>k < length partial.
            assigned_subjects (h' (partial ! k)) =
              can_teach_subjects (h' (partial ! k)) |\<inter>|
                (subjects |-| covered_by h' (take k partial)))"
  proof (intro exI[of _ residual] exI[of _ partial] conjI)
    show "residual \<noteq> {||}" by (rule f1)
    show "residual = subjects |-| covered_by h' partial" by (rule f4)
    show "\<forall>t \<in> set teachers. can_teach_subjects (h' t) |\<inter>| residual = {||}" by (rule f3)
    show "distinct partial" by (rule f5)
    show "set partial \<subseteq> set teachers" by (rule f2)
    show "\<forall>k < length partial.
        assigned_subjects (h' (partial ! k)) =
          can_teach_subjects (h' (partial ! k)) |\<inter>|
            (subjects |-| covered_by h' (take k partial))" by (rule f6)
  qed
qed
theorem create_schedule_uncoverable_witness:
  "\<exists>h'. create_schedule impossible_heap impossible_subjects [0, 1] = Inr (h', None) \<and>
     (\<exists>residual partial. residual \<noteq> {||} \<and>
        residual = impossible_subjects |-| covered_by h' partial \<and>
        can_teach_subjects (h' 0) |\<inter>| residual = {||} \<and>
        can_teach_subjects (h' 1) |\<inter>| residual = {||}) \<and>
     coverage impossible_heap {|''Astronomy''|} 0 = 0 \<and>
     coverage impossible_heap {|''Astronomy''|} 1 = 0 \<and>
     schedule_loop impossible_heap {|''Astronomy''|} [0, 1] [] = Inr (impossible_heap, None)"
proof -
  have c0: "coverage impossible_heap {|''Astronomy''|} 0 = 0" by code_simp
  have c1: "coverage impossible_heap {|''Astronomy''|} 1 = 0" by code_simp
  have "{|''Astronomy''|} \<noteq> {||} \<and>
      (\<forall>t \<in> set [0, 1]. coverage impossible_heap {|''Astronomy''|} t = 0)"
    using c0 c1 by simp
  with conjunct1[OF create_schedule_uncoverable,
      of "{|''Astronomy''|}" "[0, 1]" impossible_heap "[]"]
  have round: "schedule_loop impossible_heap {|''Astronomy''|} [0, 1] [] = Inr (impossible_heap, None)"
    by (rule mp)
  have res: "map_sum id snd (create_schedule impossible_heap impossible_subjects [0, 1]) = Inr None"
    by code_simp
  from create_schedule_spec[of impossible_heap impossible_subjects "[0, 1]"] obtain h' r where
    "create_schedule impossible_heap impossible_subjects [0, 1] = Inr (h', r)" by blast
  with res have run: "create_schedule impossible_heap impossible_subjects [0, 1] = Inr (h', None)"
    by simp
  have "create_schedule impossible_heap impossible_subjects [0, 1] = Inr (h', None) \<longrightarrow>
      (\<exists>residual partial. residual \<noteq> {||} \<and>
         residual = impossible_subjects |-| covered_by h' partial \<and>
         (\<forall>t \<in> set [0, 1]. can_teach_subjects (h' t) |\<inter>| residual = {||}) \<and>
         distinct partial \<and> set partial \<subseteq> set [0, 1] \<and>
         (\<forall>k < length partial.
            assigned_subjects (h' (partial ! k)) =
              can_teach_subjects (h' (partial ! k)) |\<inter>|
                (impossible_subjects |-| covered_by h' (take k partial))))"
    by (rule conjunct2[OF create_schedule_uncoverable])
  with run obtain residual partial where
    f1: "residual \<noteq> {||}" and f2: "residual = impossible_subjects |-| covered_by h' partial"
    and all: "\<forall>t \<in> set [0, 1]. can_teach_subjects (h' t) |\<inter>| residual = {||}"
    by (elim impE exE conjE)
  from all have f3: "can_teach_subjects (h' 0) |\<inter>| residual = {||}"
    and f4: "can_teach_subjects (h' 1) |\<inter>| residual = {||}" by simp_all
  show ?thesis
  proof (intro exI[of _ h'] exI[of _ residual] exI[of _ partial] conjI)
    show "create_schedule impossible_heap impossible_subjects [0, 1] = Inr (h', None)" by (rule run)
    show "residual \<noteq> {||}" by (rule f1)
    show "residual = impossible_subjects |-| covered_by h' partial" by (rule f2)
    show "can_teach_subjects (h' 0) |\<inter>| residual = {||}" by (rule f3)
    show "can_teach_subjects (h' 1) |\<inter>| residual = {||}" by (rule f4)
    show "coverage impossible_heap {|''Astronomy''|} 0 = 0" by (rule c0)
    show "coverage impossible_heap {|''Astronomy''|} 1 = 0" by (rule c1)
    show "schedule_loop impossible_heap {|''Astronomy''|} [0, 1] [] = Inr (impossible_heap, None)"
      by (rule round)
  qed
qed

text \<open>
  C4 as first stated (partial assignment sets discarded) fails on the pool of
  \<open>test_impossible_schedule\<close>: the call returns \<open>None\<close>, and afterwards both teachers
  still hold the assignment sets of the two rounds that ran before the failing one.
\<close>

theorem create_schedule_keeps_partial_assignments:
  "(case create_schedule impossible_heap impossible_subjects [0, 1] of
      Inl e \<Rightarrow> None
    | Inr (h', r) \<Rightarrow> Some (r, assigned_subjects (h' 0), assigned_subjects (h' 1)))
   = Some (None, {|''Mathematics''|}, {|''Physics'', ''Chemistry''|})"
  by code_simp

lemma schedule_loop_round:
  assumes "unc \<noteq> {||}" and "find_best_teacher h unc avail None 0 = Inr (best, mx)"
    and "is_best h unc avail best mx"
  shows "best = None \<Longrightarrow> schedule_loop h unc avail sel = Inr (h, None)"
    and "best = Some b \<Longrightarrow>
      schedule_loop h unc avail sel =
        schedule_loop (h(b := (h b)\<lparr>assigned_subjects := can_teach_subjects (h b) |\<inter>| unc\<rparr>))
          (unc |-| (can_teach_subjects (h b) |\<inter>| unc)) (remove1 b avail) (sel @ [b])"
proof -
  note unf = schedule_loop.simps[of h unc avail sel]
  show "best = None \<Longrightarrow> schedule_loop h unc avail sel = Inr (h, None)"
    using assms(1,2) by (simp add: unf)
  assume b: "best = Some b"
  with assms(3) have mx: "0 < mx" and mem: "b \<in> set avail" by (auto simp: is_best_def)
  have rm: "list_remove avail b = Inr (remove1 b avail)" using mem by (simp add: list_remove_def)
  show "schedule_loop h unc avail sel =
        schedule_loop (h(b := (h b)\<lparr>assigned_subjects := can_teach_subjects (h b) |\<inter>| unc\<rparr>))
          (unc |-| (can_teach_subjects (h b) |\<inter>| unc)) (remove1 b avail) (sel @ [b])"
    using assms(1,2) b mx rm by (simp add: unf Let_def)
qed

lemma reset_assigned_agree:
  assumes "\<forall>t \<in> set teachers. (h2 t)\<lparr>assigned_subjects := {||}\<rparr> = (h1 t)\<lparr>assigned_subjects := {||}\<rparr>"
    and "\<forall>t. t \<notin> set teachers \<longrightarrow> h2 t = h1 t"
  shows "reset_assigned h2 teachers = reset_assigned h1 teachers"
proof
  fix t
  show "reset_assigned h2 teachers t = reset_assigned h1 teachers t"
  proof (cases "t \<in> set teachers")
    case True
    with assms(1) show ?thesis by (simp add: reset_assigned_in)
  next
    case False
    with assms(2) show ?thesis by (simp add: reset_assigned_out)
  qed
qed

lemma create_schedule_agree:
  assumes "\<forall>t \<in> set teachers. (h2 t)\<lparr>assigned_subjects := {||}\<rparr> = (h1 t)\<lparr>assigned_subjects := {||}\<rparr>"
    and "\<forall>t. t \<notin> set teachers \<longrightarrow> h2 t = h1 t"
  shows "create_schedule h2 subjects teachers = create_schedule h1 subjects teachers"
  unfolding create_schedule_def reset_assigned_agree[OF assms] ..

lemma create_schedule_again:
  assumes "create_schedule h subjects teachers = Inr (h', r)"
  shows "create_schedule h' subjects teachers = Inr (h', r)"
proof -
  from create_schedule_spec[of h subjects teachers] obtain h1 r1 where
    run: "create_schedule h subjects teachers = Inr (h1, r1)"
    and fr1: "\<forall>t. t \<notin> set teachers \<longrightarrow> h1 t = h t"
    and fr2: "\<forall>t. (h1 t)\<lparr>assigned_subjects := {||}\<rparr> = (h t)\<lparr>assigned_subjects := {||}\<rparr>"
    by blast
  from run assms have eq: "h1 = h'" by simp
  have "create_schedule h' subjects teachers = create_schedule h subjects teachers"
    using fr1 fr2 unfolding eq by (intro create_schedule_agree) simp_all
  with assms show ?thesis by simp
qed

text \<open>
  C3. In every round the inner loop leaves in \<open>max_coverage\<close> the largest coverage of an
  available teacher and in \<open>best_teacher\<close> nobody when that is \<open>0\<close>; otherwise the teacher
  it leaves there has that coverage, is the youngest of the available teachers with that
  coverage, and comes first in the pool order among those of that coverage and age; the
  round selects exactly this teacher. The outcome of a run does not depend on the
  assignment sets the teachers hold when it starts, so a second run on the same universe
  and pool, started on the heap the first run left, returns the same selection.
\<close>

theorem greedy_selection_rule:
  "(\<exists>best mx. find_best_teacher h uncovered available None 0 = Inr (best, mx) \<and>
      (\<forall>t \<in> set available. coverage h uncovered t \<le> mx) \<and>
      (best = None \<longrightarrow> mx = 0) \<and>
      (\<forall>b. best = Some b \<longrightarrow>
         0 < mx \<and> coverage h uncovered b = mx \<and>
         (\<forall>t \<in> set available. coverage h uncovered t = mx \<longrightarrow> age (h b) \<le> age (h t)) \<and>
         (\<exists>i < length available. available ! i = b \<and>
            (\<forall>j < i. coverage h uncovered (available ! j) = mx \<longrightarrow>
               age (h b) < age (h (available ! j)))) \<and>
         (uncovered \<noteq> {||} \<longrightarrow>
            schedule_loop h uncovered available selected =
              schedule_loop
                (h(b := (h b)\<lparr>assigned_subjects := can_teach_subjects (h b) |\<inter>| uncovered\<rparr>))
                (uncovered |-| (can_teach_subjects (h b) |\<inter>| uncovered))
                (remove1 b available) (selected @ [b])))) \<and>
   ((\<forall>t \<in> set teachers. (h2 t)\<lparr>assigned_subjects := {||}\<rparr> = (h1 t)\<lparr>assigned_subjects := {||}\<rparr>) \<and>
    (\<forall>t. t \<notin> set teachers \<longrightarrow> h2 t = h1 t) \<longrightarrow>
      create_schedule h2 subjects teachers = create_schedule h1 subjects teachers) \<and>
   (create_schedule h1 subjects teachers = Inr (h', r) \<longrightarrow>
      create_schedule h' subjects teachers = Inr (h', r))"
proof (intro conjI)
  from find_best_teacher_round[of h uncovered available] obtain best mx where
    fb: "find_best_teacher h uncovered available None 0 = Inr (best, mx)"
    and ib: "is_best h uncovered available best mx" by blast
  have a: "\<forall>t \<in> set available. coverage h uncovered t \<le> mx"
    using ib unfolding is_best_def by (elim conjE)
  have b: "best = None \<longrightarrow> mx = 0" using ib by (auto simp: is_best_def)
  have c: "\<forall>b. best = Some b \<longrightarrow>
         0 < mx \<and> coverage h uncovered b = mx \<and>
         (\<forall>t \<in> set available. coverage h uncovered t = mx \<longrightarrow> age (h b) \<le> age (h t)) \<and>
         (\<exists>i < length available. available ! i = b \<and>
            (\<forall>j < i. coverage h uncovered (available ! j) = mx \<longrightarrow>
               age (h b) < age (h (available ! j)))) \<and>
         (uncovered \<noteq> {||} \<longrightarrow>
            schedule_loop h uncovered available selected =
              schedule_loop
                (h(b := (h b)\<lparr>assigned_subjects := can_teach_subjects (h b) |\<inter>| uncovered\<rparr>))
                (uncovered |-| (can_teach_subjects (h b) |\<inter>| uncovered))
                (remove1 b available) (selected @ [b]))"
  proof (intro allI impI conjI)
    fix b assume s: "best = Some b"
    from ib s show "0 < mx" "coverage h uncovered b = mx"
      "\<forall>t \<in> set available. coverage h uncovered t = mx \<longrightarrow> age (h b) \<le> age (h t)"
      "\<exists>i < length available. available ! i = b \<and>
            (\<forall>j < i. coverage h uncovered (available ! j) = mx \<longrightarrow>
               age (h b) < age (h (available ! j)))"
      by (simp_all add: is_best_def)
    assume "uncovered \<noteq> {||}"
    from schedule_loop_round(2)[OF this fb ib s]
    show "schedule_loop h uncovered available selected =
              schedule_loop
                (h(b := (h b)\<lparr>assigned_subjects := can_teach_subjects (h b) |\<inter>| uncovered\<rparr>))
                (uncovered |-| (can_teach_subjects (h b) |\<inter>| uncovered))
                (remove1 b available) (selected @ [b])" .
  qed
  from fb a b c show "\<exists>best mx. find_best_teacher h uncovered available None 0 = Inr (best, mx) \<and>
      (\<forall>t \<in> set available. coverage h uncovered t \<le> mx) \<and>
      (best = None \<longrightarrow> mx = 0) \<and>
      (\<forall>b. best = Some b \<longrightarrow>
         0 < mx \<and> coverage h uncovered b = mx \<and>
         (\<forall>t \<in> set available. coverage h uncovered t = mx \<longrightarrow> age (h b) \<le> age (h t)) \<and>
         (\<exists>i < length available. available ! i = b \<and>
            (\<forall>j < i. coverage h uncovered (available ! j) = mx \<longrightarrow>
               age (h b) < age (h (available ! j)))) \<and>
         (uncovered \<noteq> {||} \<longrightarrow>
            schedule_loop h uncovered available selected =
              schedule_loop
                (h(b := (h b)\<lparr>assigned_subjects := can_teach_subjects (h b) |\<inter>| uncovered\<rparr>))
                (uncovered |-| (can_teach_subjects (h b) |\<inter>| uncovered))
                (remove1 b available) (selected @ [b])))"
    by (intro exI[of _ best] exI[of _ mx] conjI)
  show "(\<forall>t \<in> set teachers. (h2 t)\<lparr>assigned_subjects := {||}\<rparr> = (h1 t)\<lparr>assigned_subjects := {||}\<rparr>) \<and>
    (\<forall>t. t \<notin> set teachers \<longrightarrow> h2 t = h1 t) \<longrightarrow>
      create_schedule h2 subjects teachers = create_schedule h1 subjects teachers"
    using create_schedule_agree[of teachers h2 h1 subjects] by (intro impI) (elim conjE)
  show "create_schedule h1 subjects teachers = Inr (h', r) \<longrightarrow>
      create_schedule h' subjects teachers = Inr (h', r)"
    by (intro impI) (rule create_schedule_again)
qed

theorem greedy_selection_rule_witness:
  "find_best_teacher overlap_heap {|''A'', ''B'', ''C''|} [0, 1] None 0 = Inr (Some 1, 2) \<and>
   coverage overlap_heap {|''A'', ''B'', ''C''|} 0 = 2 \<and>
   coverage overlap_heap {|''A'', ''B'', ''C''|} 1 = 2 \<and>
   age (overlap_heap 1) \<le> age (overlap_heap 0) \<and>
   (\<exists>h'. create_schedule overlap_heap {|''A'', ''B'', ''C''|} [0, 1] = Inr (h', Some [1, 0]) \<and>
      create_schedule h' {|''A'', ''B'', ''C''|} [0, 1] = Inr (h', Some [1, 0]))"
proof -
  let ?S = "{|''A'', ''B'', ''C''|}"
  have fb: "find_best_teacher overlap_heap ?S [0, 1] None 0 = Inr (Some 1, 2)" by code_simp
  have c0: "coverage overlap_heap ?S 0 = 2" by code_simp
  have c1: "coverage overlap_heap ?S 1 = 2" by code_simp
  have sel: "map_sum id snd (create_schedule overlap_heap ?S [0, 1]) = Inr (Some [1, 0])"
    by code_simp
  from create_schedule_spec[of overlap_heap ?S "[0, 1]"] obtain h' r where
    "create_schedule overlap_heap ?S [0, 1] = Inr (h', r)" by blast
  with sel have run: "create_schedule overlap_heap ?S [0, 1] = Inr (h', Some [1, 0])" by simp
  note inst = greedy_selection_rule[of overlap_heap ?S "[0, 1]" "[]" "[0, 1]"
      overlap_heap overlap_heap ?S h' "Some [1, 0]"]
  from conjunct1[OF inst] fb c0
  have ages: "age (overlap_heap 1) \<le> age (overlap_heap 0)"
    by (elim exE conjE) simp
  have "create_schedule overlap_heap ?S [0, 1] = Inr (h', Some [1, 0]) \<longrightarrow>
      create_schedule h' ?S [0, 1] = Inr (h', Some [1, 0])"
    by (rule inst[THEN conjunct2, THEN conjunct2])
  with run have again: "create_schedule h' ?S [0, 1] = Inr (h', Some [1, 0])" by (rule rev_mp)
  show ?thesis
  proof (intro conjI exI[of _ h'])
    show "find_best_teacher overlap_heap ?S [0, 1] None 0 = Inr (Some 1, 2)" by (rule fb)
    show "coverage overlap_heap ?S 0 = 2" by (rule c0)
    show "coverage overlap_heap ?S 1 = 2" by (rule c1)
    show "age (overlap_heap 1) \<le> age (overlap_heap 0)" by (rule ages)
    show "create_schedule overlap_heap ?S [0, 1] = Inr (h', Some [1, 0])" by (rule run)
    show "create_schedule h' ?S [0, 1] = Inr (h', Some [1, 0])" by (rule again)
  qed
qed

lemma fminus_nonempty_less:
  assumes "sub \<noteq> {||}" and "sub |\<subseteq>| unc"
  shows "fcard (unc |-| sub) < fcard unc"
proof -
  from assms(1) obtain x where x: "x |\<in>| sub" by auto
  with assms(2) have "x |\<in>| unc" by auto
  moreover have "x |\<notin>| unc |-| sub" using x by simp
  ultimately have "unc |-| sub \<noteq> unc" by auto
  moreover have "unc |-| sub |\<subseteq>| unc" by auto
  ultimately have "unc |-| sub |\<subset>| unc" by auto
  then show ?thesis by (rule pfsubset_fcard_mono)
qed

text \<open>
  C8. Both cores come to an end on every input. A call of either sort ends with the sorted
  list or, when the call stack runs out, with \<open>RecursionError\<close>, and it ends with the
  sorted list whenever the stack has room for more frames than the list has elements and
  \<open>random.randint\<close> nests together. The recursion of the helpers ends because a range with
  \<open>low \<ge> high\<close> is returned as it is and, otherwise, the partition index lies in
  \<open>[low, high]\<close>, so both recursive calls are on strictly shorter ranges. \<open>create_schedule\<close>
  returns a result (not an error) for every universe and pool; a round of its loop either
  returns \<open>None\<close> or selects an available teacher who can teach a subject still uncovered,
  and goes on with strictly fewer uncovered subjects and one teacher less.
\<close>

theorem sort_and_schedule_terminate:
  assumes "rng_in_range rng" and "arr < length st"
  shows "(deterministic_quick_sort frames st arr = Inr (st @ [sort (st ! arr)], length st) \<or>
          deterministic_quick_sort frames st arr = Inl RecursionError) \<and>
     ((\<exists>g'. randomized_quick_sort rng rd g frames st arr
              = Inr (st @ [sort (st ! arr)], length st, g')) \<or>
      randomized_quick_sort rng rd g frames st arr = Inl RecursionError) \<and>
     (length (st ! arr) + max rd 1 < frames \<longrightarrow>
        (\<exists>st' r. deterministic_quick_sort frames st arr = Inr (st', r)) \<and>
        (\<exists>st' r g'. randomized_quick_sort rng rd g frames st arr = Inr (st', r, g'))) \<and>
     (\<not> low < high \<longrightarrow>
        deterministic_quick_sort_helper (Suc hframes) st0 a low high = Inr st0 \<and>
        randomized_quick_sort_helper rng rd g (Suc hframes) st0 a low high = Inr (st0, g)) \<and>
     (low < high \<and> deterministic_partition st0 a low high = Inr (st1, p) \<longrightarrow>
        nat ((p - 1) - low) < nat (high - low) \<and> nat (high - (p + 1)) < nat (high - low)) \<and>
     (low < high \<and> randomized_partition rng rd g pframes st0 a low high = Inr (st1, p, g1) \<longrightarrow>
        nat ((p - 1) - low) < nat (high - low) \<and> nat (high - (p + 1)) < nat (high - low)) \<and>
     (\<exists>h' r. create_schedule h subjects teachers = Inr (h', r)) \<and>
     (uncovered \<noteq> {||} \<longrightarrow>
        schedule_loop h0 uncovered available selected = Inr (h0, None) \<or>
        (\<exists>b. b \<in> set available \<and>
           fcard (uncovered |-| (can_teach_subjects (h0 b) |\<inter>| uncovered)) < fcard uncovered \<and>
           length (remove1 b available) < length available \<and>
           schedule_loop h0 uncovered available selected =
             schedule_loop
               (h0(b := (h0 b)\<lparr>assigned_subjects := can_teach_subjects (h0 b) |\<inter>| uncovered\<rparr>))
               (uncovered |-| (can_teach_subjects (h0 b) |\<inter>| uncovered))
               (remove1 b available) (selected @ [b])))"
proof (intro conjI impI)
  show "deterministic_quick_sort frames st arr = Inr (st @ [sort (st ! arr)], length st) \<or>
      deterministic_quick_sort frames st arr = Inl RecursionError"
    using deterministic_quick_sort_cases[OF assms(2), of frames] by blast
  show "(\<exists>g'. randomized_quick_sort rng rd g frames st arr
              = Inr (st @ [sort (st ! arr)], length st, g')) \<or>
      randomized_quick_sort rng rd g frames st arr = Inl RecursionError"
    using randomized_quick_sort_cases[OF assms, of rd g frames] by blast
  show "\<exists>h' r. create_schedule h subjects teachers = Inr (h', r)"
    using create_schedule_spec[of h subjects teachers] by blast
next
  assume fr: "length (st ! arr) + max rd 1 < frames"
  then have "max 1 (length (st ! arr)) < frames" by simp
  with assms(2) have "deterministic_quick_sort frames st arr
      = Inr (st @ [sort (st ! arr)], length st)"
    by (rule deterministic_quick_sort_eq)
  then show "\<exists>st' r. deterministic_quick_sort frames st arr = Inr (st', r)" by blast
next
  assume fr: "length (st ! arr) + max rd 1 < frames"
  from randomized_quick_sort_eq[OF assms fr, of g]
  show "\<exists>st' r g'. randomized_quick_sort rng rd g frames st arr = Inr (st', r, g')" by blast
next
  assume "\<not> low < high"
  then show "deterministic_quick_sort_helper (Suc hframes) st0 a low high = Inr st0"
    by (simp add: deterministic_quick_sort_helper.simps[of "Suc hframes" st0 a low high])
next
  assume "\<not> low < high"
  then show "randomized_quick_sort_helper rng rd g (Suc hframes) st0 a low high = Inr (st0, g)"
    by (simp add: randomized_quick_sort_helper.simps[of rng rd g "Suc hframes" st0 a low high])
next
  assume "low < high \<and> deterministic_partition st0 a low high = Inr (st1, p)"
  then have lt: "low < high" and "low \<le> p \<and> p \<le> high"
    using deterministic_partition_bounds[of st0 a low high st1 p] by simp_all
  then show "nat ((p - 1) - low) < nat (high - low)" "nat (high - (p + 1)) < nat (high - low)"
    by simp_all
next
  assume "low < high \<and> randomized_partition rng rd g pframes st0 a low high = Inr (st1, p, g1)"
  then have lt: "low < high" and "low \<le> p \<and> p \<le> high"
    using randomized_partition_bounds[of rng rd g pframes st0 a low high st1 p g1] by simp_all
  then show "nat ((p - 1) - low) < nat (high - low)" "nat (high - (p + 1)) < nat (high - low)"
    by simp_all
next
  assume ne: "uncovered \<noteq> {||}"
  from find_best_teacher_round[of h0 uncovered available] obtain best mx where
    fb: "find_best_teacher h0 uncovered available None 0 = Inr (best, mx)"
    and ib: "is_best h0 uncovered available best mx" by blast
  show "schedule_loop h0 uncovered available selected = Inr (h0, None) \<or>
        (\<exists>b. b \<in> set available \<and>
           fcard (uncovered |-| (can_teach_subjects (h0 b) |\<inter>| uncovered)) < fcard uncovered \<and>
           length (remove1 b available) < length available \<and>
           schedule_loop h0 uncovered available selected =
             schedule_loop
               (h0(b := (h0 b)\<lparr>assigned_subjects := can_teach_subjects (h0 b) |\<inter>| uncovered\<rparr>))
               (uncovered |-| (can_teach_subjects (h0 b) |\<inter>| uncovered))
               (remove1 b available) (selected @ [b]))"
  proof (cases best)
    case None
    from schedule_loop_round(1)[OF ne fb ib None] show ?thesis by (rule disjI1)
  next
    case (Some b)
    from ib Some have pos: "0 < coverage h0 uncovered b" and mem: "b \<in> set available"
      by (auto simp: is_best_def)
    let ?sub = "can_teach_subjects (h0 b) |\<inter>| uncovered"
    have "?sub \<noteq> {||}" using pos by (simp add: coverage_pos)
    moreover have "?sub |\<subseteq>| uncovered" by simp
    ultimately have less: "fcard (uncovered |-| ?sub) < fcard uncovered"
      by (rule fminus_nonempty_less)
    have "0 < length available" using mem by (rule length_pos_if_in_set)
    then have shorter: "length (remove1 b available) < length available"
      using mem by (simp add: length_remove1)
    note step = schedule_loop_round(2)[OF ne fb ib Some, of selected]
    show ?thesis
      by (rule disjI2, rule exI[of _ b], intro conjI) (rule mem less shorter step)+
  qed
qed

theorem sort_and_schedule_terminate_witness:
  "rng_in_range counter_rng \<and> (0::nat) < length [[5, 4, 3, 2, 1 :: int]] \<and>
   length [5, 4, 3, 2, 1 :: int] + max 3 1 < (10::nat) \<and>
   (\<exists>st' r. deterministic_quick_sort 10 [[5, 4, 3, 2, 1]] 0 = Inr (st', r)) \<and>
   (\<exists>st' r g'. randomized_quick_sort counter_rng 3 (0::nat) 10 [[5, 4, 3, 2, 1]] 0
      = Inr (st', r, g')) \<and>
   \<not> (3::int) < 2 \<and>
   deterministic_quick_sort_helper (Suc 0) [[5, 4, 3, 2, 1]] 0 3 2 = Inr [[5, 4, 3, 2, 1]] \<and>
   (0::int) < 4 \<and>
   deterministic_partition [[5, 4, 3, 2, 1]] 0 0 4 = Inr ([[1, 4, 3, 2, 5]], 0) \<and>
   nat ((0 - 1) - (0::int)) < nat (4 - 0) \<and> nat (4 - ((0::int) + 1)) < nat (4 - 0) \<and>
   (\<exists>h' r. create_schedule impossible_heap impossible_subjects [0, 1] = Inr (h', r))"
proof -
  have len: "(0::nat) < length [[5, 4, 3, 2, 1 :: int]]" by simp
  have fr: "length ([[5, 4, 3, 2, 1 :: int]] ! 0) + max 3 1 < (10::nat)" by simp
  have part: "deterministic_partition [[5, 4, 3, 2, 1]] 0 0 4 = Inr ([[1, 4, 3, 2, 5]], 0)"
    by code_simp
  note inst = sort_and_schedule_terminate[OF counter_rng_in_range len,
      where frames = 10 and rd = 3 and g = 0 and low = 0 and high = 4 and hframes = 0
        and ?st0.0 = "[[5, 4, 3, 2, 1]]" and a = 0 and ?st1.0 = "[[1, 4, 3, 2, 5]]" and p = 0
        and pframes = 5 and ?g1.0 = 0
        and h = impossible_heap and subjects = impossible_subjects and teachers = "[0, 1]"
        and uncovered = "{||}" and ?h0.0 = impossible_heap and available = "[]"
        and selected = "[]"]
  note base = sort_and_schedule_terminate[OF counter_rng_in_range len,
      where frames = 10 and rd = 3 and g = 0 and low = 3 and high = 2 and hframes = 0
        and ?st0.0 = "[[5, 4, 3, 2, 1]]" and a = 0 and ?st1.0 = "[[1, 4, 3, 2, 5]]" and p = 0
        and pframes = 5 and ?g1.0 = 0
        and h = impossible_heap and subjects = impossible_subjects and teachers = "[0, 1]"
        and uncovered = "{||}" and ?h0.0 = impossible_heap and available = "[]"
        and selected = "[]"]
  have ab: "(\<exists>st' r. deterministic_quick_sort 10 [[5, 4, 3, 2, 1]] 0 = Inr (st', r)) \<and>
      (\<exists>st' r g'. randomized_quick_sort counter_rng 3 (0::nat) 10 [[5, 4, 3, 2, 1]] 0
        = Inr (st', r, g'))"
    using inst[THEN conjunct2, THEN conjunct2, THEN conjunct1] fr by (rule mp)
  have "\<not> (3::int) < 2" by simp
  with base[THEN conjunct2, THEN conjunct2, THEN conjunct2, THEN conjunct1]
  have bc: "deterministic_quick_sort_helper (Suc 0) [[5, 4, 3, 2, 1]] 0 3 2
      = Inr [[5, 4, 3, 2, 1]]"
    by blast
  have c: "(0::int) < 4 \<and> deterministic_partition [[5, 4, 3, 2, 1]] 0 0 4 = Inr ([[1, 4, 3, 2, 5]], 0)
      \<longrightarrow> nat ((0 - 1) - (0::int)) < nat (4 - 0) \<and> nat (4 - ((0::int) + 1)) < nat (4 - 0)"
    by (rule inst[THEN conjunct2, THEN conjunct2, THEN conjunct2, THEN conjunct2,
          THEN conjunct1])
  have d: "\<exists>h' r. create_schedule impossible_heap impossible_subjects [0, 1] = Inr (h', r)"
    by (rule inst[THEN conjunct2, THEN conjunct2, THEN conjunct2, THEN conjunct2, THEN conjunct2,
          THEN conjunct2, THEN conjunct1])
  have lt: "(0::int) < 4" by simp
  with part c have e: "nat ((0 - 1) - (0::int)) < nat (4 - 0) \<and> nat (4 - ((0::int) + 1)) < nat (4 - 0)"
    by (intro mp[OF c] conjI)
  show ?thesis
  proof (intro conjI)
    show "rng_in_range counter_rng" by (rule counter_rng_in_range)
    show "(0::nat) < length [[5, 4, 3, 2, 1 :: int]]" by (rule len)
    show "length [5, 4, 3, 2, 1 :: int] + max 3 1 < (10::nat)" by simp
    show "\<exists>st' r. deterministic_quick_sort 10 [[5, 4, 3, 2, 1]] 0 = Inr (st', r)"
      by (rule ab[THEN conjunct1])
    show "\<exists>st' r g'. randomized_quick_sort counter_rng 3 (0::nat) 10 [[5, 4, 3, 2, 1]] 0
        = Inr (st', r, g')"
      by (rule ab[THEN conjunct2])
    show "\<not> (3::int) < 2" by simp
    show "deterministic_quick_sort_helper (Suc 0) [[5, 4, 3, 2, 1]] 0 3 2 = Inr [[5, 4, 3, 2, 1]]"
      by (rule bc)
    show "(0::int) < 4" by (rule lt)
    show "deterministic_partition [[5, 4, 3, 2, 1]] 0 0 4 = Inr ([[1, 4, 3, 2, 5]], 0)" by (rule part)
    show "nat ((0 - 1) - (0::int)) < nat (4 - 0)" by (rule e[THEN conjunct1])
    show "nat (4 - ((0::int) + 1)) < nat (4 - 0)" by (rule e[THEN conjunct2])
    show "\<exists>h' r. create_schedule impossible_heap impossible_subjects [0, 1] = Inr (h', r)" by (rule d)
  qed
qed

end
